theory Spec2Isabelle
  imports Main "HOL-Library.Multiset"
begin

section \<open>Python values, exceptions and calls with keyword arguments\<close>

text \<open>
  The bundled claims are JSON-like Python values. A dict is an association list
  (a well-formed dict has distinct keys); \<open>PStr\<close> is \<open>str\<close>.
\<close>

datatype pyval =
    PNone
  | PBool bool
  | PInt int
  | PStr string
  | PList "pyval list"
  | PDict "(string \<times> pyval) list"

text \<open>The exceptions of the modelled code; all of them are subclasses of \<open>Exception\<close>.\<close>

datatype exn =
    TypeError string
  | KeyError string
  | AttributeError string
  | ValueError string
  | FileNotFoundError string
  | HTTPError string
  | ConnectionError string

text \<open>\<open>str(e)\<close>, as the f-string of the worker's log record formats it.\<close>

fun exn_str :: "exn \<Rightarrow> string" where
  "exn_str (TypeError m) = m"
| "exn_str (KeyError k) = [CHR 0x27] @ k @ [CHR 0x27]"
| "exn_str (AttributeError m) = m"
| "exn_str (ValueError m) = m"
| "exn_str (FileNotFoundError m) = m"
| "exn_str (HTTPError m) = m"
| "exn_str (ConnectionError m) = m"

type_synonym pydict = "(string \<times> pyval) list"

definition dict_get :: "pydict \<Rightarrow> string \<Rightarrow> pyval \<Rightarrow> pyval" where
  "dict_get d k dflt = (case map_of d k of None \<Rightarrow> dflt | Some v \<Rightarrow> v)"

text \<open>\<open>d.pop(k, default)\<close>: the value (or the default) and the dict without the key.\<close>

definition dict_pop :: "pydict \<Rightarrow> string \<Rightarrow> pyval \<Rightarrow> pyval \<times> pydict" where
  "dict_pop d k dflt = (dict_get d k dflt, filter (\<lambda>kv. fst kv \<noteq> k) d)"

text \<open>\<open>obj[key]\<close> with a \<open>str\<close> key.\<close>

fun getitem :: "pyval \<Rightarrow> string \<Rightarrow> exn + pyval" where
  "getitem (PDict d) k = (case map_of d k of None \<Rightarrow> Inl (KeyError k) | Some v \<Rightarrow> Inr v)"
| "getitem (PList xs) k = Inl (TypeError ''list indices must be integers or slices, not str'')"
| "getitem (PStr s) k = Inl (TypeError ''string indices must be integers, not str'')"
| "getitem (PInt i) k = Inl (TypeError ''int object is not subscriptable'')"
| "getitem (PBool b) k = Inl (TypeError ''bool object is not subscriptable'')"
| "getitem PNone k = Inl (TypeError ''NoneType object is not subscriptable'')"

text \<open>\<open>obj.get(key, default)\<close>: only a dict has the method.\<close>

fun py_get :: "pyval \<Rightarrow> string \<Rightarrow> pyval \<Rightarrow> exn + pyval" where
  "py_get (PDict d) k dflt = Inr (dict_get d k dflt)"
| "py_get v k dflt = Inl (AttributeError ''object has no attribute get'')"

text \<open>\<open>for x in obj\<close>: the items the loop visits, or the TypeError of a non-iterable.\<close>

fun py_iter :: "pyval \<Rightarrow> exn + pyval list" where
  "py_iter (PList xs) = Inr xs"
| "py_iter (PDict d) = Inr (map (\<lambda>kv. PStr (fst kv)) d)"
| "py_iter (PStr s) = Inr (map (\<lambda>c. PStr [c]) s)"
| "py_iter (PInt i) = Inl (TypeError ''int object is not iterable'')"
| "py_iter (PBool b) = Inl (TypeError ''bool object is not iterable'')"
| "py_iter PNone = Inl (TypeError ''NoneType object is not iterable'')"

text \<open>\<open>f(**obj)\<close>: the object after \<open>**\<close> must be a mapping.\<close>

fun star_kwargs :: "pyval \<Rightarrow> exn + pydict" where
  "star_kwargs (PDict d) = Inr d"
| "star_kwargs v = Inl (TypeError ''argument after ** must be a mapping'')"

fun truthy :: "pyval \<Rightarrow> bool" where
  "truthy PNone = False"
| "truthy (PBool b) = b"
| "truthy (PInt i) = (i \<noteq> 0)"
| "truthy (PStr s) = (s \<noteq> [])"
| "truthy (PList xs) = (xs \<noteq> [])"
| "truthy (PDict d) = (d \<noteq> [])"

text \<open>
  Binding the arguments of a call to a signature without \<open>**kwargs\<close>: \<open>kw\<close> holds
  every argument of the call by parameter name (an explicit argument first, then the
  entries of the \<open>**\<close> dict). Python raises TypeError when a parameter gets two values,
  when a keyword names no parameter, and when a parameter without default gets none.
\<close>

definition bind_keywords :: "string list \<Rightarrow> string list \<Rightarrow> pydict \<Rightarrow> exn + pydict" where
  "bind_keywords required optional kw =
     (if \<not> distinct (map fst kw) then Inl (TypeError ''got multiple values for argument'')
      else if list_ex (\<lambda>k. k \<notin> set (required @ optional)) (map fst kw)
        then Inl (TypeError ''got an unexpected keyword argument'')
      else if list_ex (\<lambda>k. k \<notin> set (map fst kw)) required
        then Inl (TypeError ''missing required positional argument'')
      else Inr kw)"

section \<open>Tasks, events and the client\<close>

text \<open>A task is the pair \<open>(func, args)\<close> the orchestrator appends to its deque.\<close>

datatype func = Submit_claim_attachment | Submit_invoice_attachment

datatype task = Task (task_func: func) (task_args: "pyval list")

datatype request =
  Request (req_method: string) (req_url: string) (req_json: pydict) (req_files: "pyval option")

datatype call = Call (fname: string) (kwargs: pydict)

text \<open>
  What one orchestration of a claim does, in the order it happens: the calls of the
  creation wrappers with what they returned or raised, and the steps of the worker pool
  of \<open>_process_tasks\<close>.
\<close>

datatype event =
    Called call "exn + pyval"
  | Spawned nat
  | Enqueued "task option"
  | Dequeued nat "task option"
  | Invoked nat task "exn + pyval"
  | Acked nat
  | Thread_joined nat

text \<open>
  The object \<open>self\<close>, as far as the orchestration reads it. \<open>transport\<close> stands for
  \<open>Authentication._make_request\<close>: given what this orchestration has done so far and a
  request, the decoded JSON response or the exception raised (\<open>raise_for_status\<close>, a
  transport failure, a failing \<open>open\<close> of the attachment). \<open>path_exists\<close> and
  \<open>fd_exists\<close> stand for \<open>os.path.exists\<close> on a path and on a file descriptor.
\<close>

record client =
  base_is_url :: string
  transport :: "event list \<Rightarrow> request \<Rightarrow> exn + pyval"
  path_exists :: "string \<Rightarrow> bool"
  fd_exists :: "int \<Rightarrow> bool"

section \<open>The wrappers of \<open>submit_visits.py\<close>\<close>

definition create_claim_required :: "string list" where
  "create_claim_required =
     [''payer_code'', ''payer_name'', ''patient_name'', ''member_number'', ''scheme_name'',
      ''visit_number'', ''visit_start'', ''visit_end'', ''icd10_codes'']"

definition create_claim_optional :: "string list" where
  "create_claim_optional = [''location_code'', ''location_name'', ''scheme_code'']"

definition create_claim :: "client \<Rightarrow> event list \<Rightarrow> pydict \<Rightarrow> exn + pyval" where
  "create_claim self hist kw =
     (case bind_keywords create_claim_required create_claim_optional kw of
        Inl e \<Rightarrow> Inl e
      | Inr b \<Rightarrow>
          transport self hist
            (Request ''POST'' (base_is_url self @ ''/v1/claims/'')
               (map (\<lambda>k. (k, dict_get b k PNone)) (create_claim_required @ create_claim_optional))
               None))"

definition submit_invoices :: "client \<Rightarrow> event list \<Rightarrow> pydict \<Rightarrow> exn + pyval" where
  "submit_invoices self hist kw =
     (case bind_keywords [''claim'', ''invoice_number'', ''invoice_date'', ''lines''] [''copays''] kw of
        Inl e \<Rightarrow> Inl e
      | Inr b \<Rightarrow>
          transport self hist
            (Request ''POST'' (base_is_url self @ ''/v1/invoices'')
               [(''claim'', dict_get b ''claim'' PNone),
                (''invoice_number'', dict_get b ''invoice_number'' PNone),
                (''invoice_date'', dict_get b ''invoice_date'' PNone),
                (''lines'', dict_get b ''lines'' PNone),
                (''copays'',
                   (if truthy (dict_get b ''copays'' PNone) then dict_get b ''copays'' PNone
                    else PList []))]
               None))"

definition submit_credit_note :: "client \<Rightarrow> event list \<Rightarrow> pydict \<Rightarrow> exn + pyval" where
  "submit_credit_note self hist kw =
     (case bind_keywords [''claim'', ''invoice_number'', ''invoice_date'', ''lines''] [] kw of
        Inl e \<Rightarrow> Inl e
      | Inr b \<Rightarrow>
          transport self hist
            (Request ''POST'' (base_is_url self @ ''/v1/invoices'')
               [(''invoice_type'', PStr ''CREDIT_NOTE''),
                (''claim'', dict_get b ''claim'' PNone),
                (''invoice_number'', dict_get b ''invoice_number'' PNone),
                (''invoice_date'', dict_get b ''invoice_date'' PNone),
                (''lines'', dict_get b ''lines'' PNone)]
               None))"

text \<open>
  \<open>os.path.exists\<close>: a \<open>str\<close> is looked up as a path, an \<open>int\<close> (a \<open>bool\<close> is one) as
  an open file descriptor, and \<open>os.stat\<close> raises TypeError on anything else.
\<close>

fun os_path_exists :: "client \<Rightarrow> pyval \<Rightarrow> exn + bool" where
  "os_path_exists self (PStr p) = Inr (path_exists self p)"
| "os_path_exists self (PInt i) = Inr (fd_exists self i)"
| "os_path_exists self (PBool b) = Inr (fd_exists self (if b then 1 else 0))"
| "os_path_exists self v =
     Inl (TypeError ''stat: path should be string, bytes, os.PathLike or integer'')"

fun submit_claim_attachment :: "client \<Rightarrow> event list \<Rightarrow> pyval list \<Rightarrow> exn + pyval" where
  "submit_claim_attachment self hist [claim, path_to_attachment, attachment_type, description] =
     (case os_path_exists self path_to_attachment of
        Inl e \<Rightarrow> Inl e
      | Inr ex \<Rightarrow>
          if \<not> ex then Inl (FileNotFoundError ''Attachment file not found.'')
          else transport self hist
                 (Request ''POST'' (base_is_url self @ ''/v1/claim_attachments/upload_attachment/'')
                    [(''claim'', claim), (''attachment_type'', attachment_type),
                     (''description'', description)]
                    (Some path_to_attachment)))"
| "submit_claim_attachment self hist args =
     Inl (TypeError ''submit_claim_attachment() takes from 3 to 4 positional arguments'')"

fun submit_invoice_attachment :: "client \<Rightarrow> event list \<Rightarrow> pyval list \<Rightarrow> exn + pyval" where
  "submit_invoice_attachment self hist [invoice, path_to_attachment, description] =
     (case os_path_exists self path_to_attachment of
        Inl e \<Rightarrow> Inl e
      | Inr ex \<Rightarrow>
          if \<not> ex then Inl (FileNotFoundError ''Attachment file not found.'')
          else transport self hist
                 (Request ''POST'' (base_is_url self @ ''/v1/invoice_attachments/upload_attachment/'')
                    [(''invoice'', invoice), (''description'', description)]
                    (Some path_to_attachment)))"
| "submit_invoice_attachment self hist args =
     Inl (TypeError ''submit_invoice_attachment() takes from 2 to 3 positional arguments'')"

text \<open>\<open>func(*args)\<close> of the worker.\<close>

fun run_task :: "client \<Rightarrow> event list \<Rightarrow> task \<Rightarrow> exn + pyval" where
  "run_task self hist (Task Submit_claim_attachment args) = submit_claim_attachment self hist args"
| "run_task self hist (Task Submit_invoice_attachment args) = submit_invoice_attachment self hist args"

section \<open>The per-claim orchestrator of \<open>api.py\<close>: building the task list\<close>

text \<open>
  \<open>_process_claim_attachments\<close>: one task per claim attachment. An exception leaves the
  deque to the caller, who drops it, so only the exception is returned.
\<close>

fun process_claim_attachments :: "pyval list \<Rightarrow> task list \<Rightarrow> pyval \<Rightarrow> exn + task list" where
  "process_claim_attachments [] tasks claim_id = Inr tasks"
| "process_claim_attachments (attachment # rest) tasks claim_id =
     (case getitem attachment ''path_to_attachment'' of
        Inl e \<Rightarrow> Inl e
      | Inr p \<Rightarrow>
          (case getitem attachment ''attachment_type'' of
             Inl e \<Rightarrow> Inl e
           | Inr ty \<Rightarrow>
               (case py_get attachment ''description'' PNone of
                  Inl e \<Rightarrow> Inl e
                | Inr d \<Rightarrow>
                    process_claim_attachments rest
                      (tasks @ [Task Submit_claim_attachment [claim_id, p, ty, d]]) claim_id)))"

text \<open>
  The inner loop of \<open>_process_invoices\<close> and of \<open>_process_credit_notes\<close>: both append
  \<open>submit_invoice_attachment\<close> tasks bound to the identifier just obtained.
\<close>

fun nested_attachment_tasks :: "pyval list \<Rightarrow> task list \<Rightarrow> pyval \<Rightarrow> exn + task list" where
  "nested_attachment_tasks [] tasks parent_id = Inr tasks"
| "nested_attachment_tasks (attachment # rest) tasks parent_id =
     (case getitem attachment ''path_to_attachment'' of
        Inl e \<Rightarrow> Inl e
      | Inr p \<Rightarrow>
          (case py_get attachment ''description'' (PStr []) of
             Inl e \<Rightarrow> Inl e
           | Inr d \<Rightarrow>
               nested_attachment_tasks rest
                 (tasks @ [Task Submit_invoice_attachment [parent_id, p, d]]) parent_id))"

text \<open>
  \<open>_process_invoices\<close>, over the items of \<open>invoices\<close>. The result is the task list or
  the exception, with the trace of the calls made up to there.
\<close>

fun process_invoices ::
  "client \<Rightarrow> pyval list \<Rightarrow> task list \<Rightarrow> pyval \<Rightarrow> event list \<Rightarrow> (exn + task list) \<times> event list"
where
  "process_invoices self [] tasks claim_id tr = (Inr tasks, tr)"
| "process_invoices self (invoice # rest) tasks claim_id tr =
     (case star_kwargs invoice of
        Inl e \<Rightarrow> (Inl e, tr)
      | Inr inv_kw \<Rightarrow>
          (let kw = (''claim'', claim_id) # inv_kw;
               inv_response = submit_invoices self tr kw;
               tr' = tr @ [Called (Call ''submit_invoices'' kw) inv_response]
           in case inv_response of
                Inl e \<Rightarrow> (Inl e, tr')
              | Inr resp \<Rightarrow>
                  (case getitem resp ''id'' of
                     Inl e \<Rightarrow> (Inl e, tr')
                   | Inr inv_id \<Rightarrow>
                       (case py_iter (dict_get inv_kw ''invoice_attachments'' (PList [])) of
                          Inl e \<Rightarrow> (Inl e, tr')
                        | Inr atts \<Rightarrow>
                            (case nested_attachment_tasks atts tasks inv_id of
                               Inl e \<Rightarrow> (Inl e, tr')
                             | Inr tasks' \<Rightarrow> process_invoices self rest tasks' claim_id tr')))))"

fun process_credit_notes ::
  "client \<Rightarrow> pyval list \<Rightarrow> task list \<Rightarrow> pyval \<Rightarrow> event list \<Rightarrow> (exn + task list) \<times> event list"
where
  "process_credit_notes self [] tasks claim_id tr = (Inr tasks, tr)"
| "process_credit_notes self (crn # rest) tasks claim_id tr =
     (case star_kwargs crn of
        Inl e \<Rightarrow> (Inl e, tr)
      | Inr crn_kw \<Rightarrow>
          (let kw = (''claim'', claim_id) # crn_kw;
               crn_response = submit_credit_note self tr kw;
               tr' = tr @ [Called (Call ''submit_credit_note'' kw) crn_response]
           in case crn_response of
                Inl e \<Rightarrow> (Inl e, tr')
              | Inr resp \<Rightarrow>
                  (case getitem resp ''id'' of
                     Inl e \<Rightarrow> (Inl e, tr')
                   | Inr crn_id \<Rightarrow>
                       (case py_iter (dict_get crn_kw ''crn_attachments'' (PList [])) of
                          Inl e \<Rightarrow> (Inl e, tr')
                        | Inr atts \<Rightarrow>
                            (case nested_attachment_tasks atts tasks crn_id of
                               Inl e \<Rightarrow> (Inl e, tr')
                             | Inr tasks' \<Rightarrow> process_credit_notes self rest tasks' claim_id tr')))))"

text \<open>
  \<open>send_a_claim_and_its_children\<close> up to its last line: the three pops, the call of
  \<open>create_claim\<close> with what is left of the record, and the three passes that fill the
  deque. \<open>claim_kwargs\<close> is the bundled record after the pops (the caller's dict is
  mutated in place).
\<close>

definition claim_kwargs :: "pydict \<Rightarrow> pydict" where
  "claim_kwargs bundled_claim =
     snd (dict_pop (snd (dict_pop (snd (dict_pop bundled_claim ''invoices'' (PList [])))
                                  ''claim_attachments'' (PList [])))
                   ''credit_notes'' (PList []))"

definition build_tasks :: "client \<Rightarrow> pydict \<Rightarrow> (exn + task list) \<times> event list" where
  "build_tasks self bundled_claim =
     (let (invoices, bc1) = dict_pop bundled_claim ''invoices'' (PList []);
          (claim_attachments, bc2) = dict_pop bc1 ''claim_attachments'' (PList []);
          (credit_notes, bc3) = dict_pop bc2 ''credit_notes'' (PList []);
          claim_resp = create_claim self [] bc3;
          tr = [Called (Call ''create_claim'' bc3) claim_resp]
      in case claim_resp of
           Inl e \<Rightarrow> (Inl e, tr)
         | Inr resp \<Rightarrow>
             (case getitem resp ''id'' of
                Inl e \<Rightarrow> (Inl e, tr)
              | Inr claim_id \<Rightarrow>
                  (case py_iter claim_attachments of
                     Inl e \<Rightarrow> (Inl e, tr)
                   | Inr cas \<Rightarrow>
                       (case process_claim_attachments cas [] claim_id of
                          Inl e \<Rightarrow> (Inl e, tr)
                        | Inr tasks1 \<Rightarrow>
                            (case py_iter invoices of
                               Inl e \<Rightarrow> (Inl e, tr)
                             | Inr invs \<Rightarrow>
                                 (case process_invoices self invs tasks1 claim_id tr of
                                    (Inl e, tr2) \<Rightarrow> (Inl e, tr2)
                                  | (Inr tasks2, tr2) \<Rightarrow>
                                      (case py_iter credit_notes of
                                         Inl e \<Rightarrow> (Inl e, tr2)
                                       | Inr crns \<Rightarrow>
                                           process_credit_notes self crns tasks2 claim_id tr2)))))))"

section \<open>The worker pool of \<open>_process_tasks\<close>\<close>

text \<open>
  The main thread of \<open>_process_tasks\<close> and its workers run in parallel. The model is a
  transition system: a state of the pool, one atomic step of the main thread or of one
  worker, and a schedule that says whose turn it is. A blocked step (\<open>queue.get\<close> on an
  empty queue, \<open>queue.join\<close> with unfinished tasks, \<open>t.join\<close> on a live thread) is
  \<open>None\<close>: that thread cannot move now.
\<close>

text \<open>Where the main thread stands in \<open>_process_tasks\<close>.\<close>

datatype mpc =
    Spawning nat
  | Enqueuing "task list"
  | Joining
  | Stopping nat
  | Joining_threads nat
  | Returned

text \<open>
  Where a worker stands in \<open>_worker\<close>: at \<open>queue.get()\<close>, holding a task before
  \<open>func(*args)\<close>, in the \<open>finally\<close> before \<open>queue.task_done()\<close>, after the \<open>break\<close>,
  or ended by an exception that left \<open>_worker\<close>.
\<close>

datatype wstate = Getting | Calling task | Finishing | Exited | Died exn

text \<open>
  \<open>queue\<close> holds the items of the \<open>Queue\<close> in FIFO order, \<open>None\<close> being the stop
  sentinel; \<open>unfinished_tasks\<close> is the counter of the \<open>Queue\<close> that \<open>put\<close> increments,
  \<open>task_done\<close> decrements and \<open>join\<close> waits on; \<open>logger\<close> holds the messages of
  \<open>LOGGER.error\<close>.
\<close>

record pool =
  pc :: mpc
  queue :: "task option list"
  unfinished_tasks :: nat
  threads :: "wstate list"
  trace :: "event list"
  logger :: "string list"

definition pool_init :: pool where
  "pool_init =
     \<lparr>pc = Spawning 0, queue = [], unfinished_tasks = 0, threads = [], trace = [], logger = []\<rparr>"

fun finished :: "wstate \<Rightarrow> bool" where
  "finished Exited = True"
| "finished (Died e) = True"
| "finished w = False"

text \<open>
  One step of the main thread. \<open>range(num_workers)\<close> is empty for a count below 1, so
  the count is a natural number here.
\<close>

fun process_tasks_step :: "task list \<Rightarrow> nat \<Rightarrow> pool \<Rightarrow> pool option" where
  "process_tasks_step tasks num_workers s =
     (case pc s of
        Spawning k \<Rightarrow>
          if k < num_workers
          then Some (s\<lparr>threads := threads s @ [Getting], trace := trace s @ [Spawned k],
                       pc := Spawning (Suc k)\<rparr>)
          else Some (s\<lparr>pc := Enqueuing tasks\<rparr>)
      | Enqueuing [] \<Rightarrow> Some (s\<lparr>pc := Joining\<rparr>)
      | Enqueuing (t # ts) \<Rightarrow>
          Some (s\<lparr>queue := queue s @ [Some t], unfinished_tasks := Suc (unfinished_tasks s),
                  trace := trace s @ [Enqueued (Some t)], pc := Enqueuing ts\<rparr>)
      | Joining \<Rightarrow> if unfinished_tasks s = 0 then Some (s\<lparr>pc := Stopping 0\<rparr>) else None
      | Stopping k \<Rightarrow>
          if k < num_workers
          then Some (s\<lparr>queue := queue s @ [None], unfinished_tasks := Suc (unfinished_tasks s),
                       trace := trace s @ [Enqueued None], pc := Stopping (Suc k)\<rparr>)
          else Some (s\<lparr>pc := Joining_threads 0\<rparr>)
      | Joining_threads i \<Rightarrow>
          if i < length (threads s)
          then (if finished (threads s ! i)
                then Some (s\<lparr>trace := trace s @ [Thread_joined i], pc := Joining_threads (Suc i)\<rparr>)
                else None)
          else Some (s\<lparr>pc := Returned\<rparr>)
      | Returned \<Rightarrow> None)"

text \<open>
  One step of worker \<open>i\<close>. \<open>tr0\<close> is what the orchestration did before the pool
  started; the transport sees it and the trace of the pool. An exception of
  \<open>func(*args)\<close> is caught and logged. \<open>task_done\<close> raises ValueError when the counter
  is already zero; raised in the \<open>finally\<close>, it leaves \<open>_worker\<close>.
\<close>

fun worker :: "client \<Rightarrow> event list \<Rightarrow> nat \<Rightarrow> pool \<Rightarrow> pool option" where
  "worker self tr0 i s =
     (if i < length (threads s) then
        (case threads s ! i of
           Getting \<Rightarrow>
             (case queue s of
                [] \<Rightarrow> None
              | None # q \<Rightarrow>
                  Some (s\<lparr>queue := q, threads := (threads s)[i := Exited],
                          trace := trace s @ [Dequeued i None]\<rparr>)
              | Some t # q \<Rightarrow>
                  Some (s\<lparr>queue := q, threads := (threads s)[i := Calling t],
                          trace := trace s @ [Dequeued i (Some t)]\<rparr>))
         | Calling t \<Rightarrow>
             (let r = run_task self (tr0 @ trace s) t
              in Some (s\<lparr>threads := (threads s)[i := Finishing],
                         trace := trace s @ [Invoked i t r],
                         logger := (case r of
                                      Inl e \<Rightarrow> logger s @ [''Error processing task: '' @ exn_str e]
                                    | Inr v \<Rightarrow> logger s)\<rparr>))
         | Finishing \<Rightarrow>
             if unfinished_tasks s = 0
             then Some (s\<lparr>threads :=
                            (threads s)[i := Died (ValueError ''task_done() called too many times'')]\<rparr>)
             else Some (s\<lparr>unfinished_tasks := unfinished_tasks s - 1,
                          threads := (threads s)[i := Getting],
                          trace := trace s @ [Acked i]\<rparr>)
         | Exited \<Rightarrow> None
         | Died e \<Rightarrow> None)
      else None)"

text \<open>A schedule names, step by step, the thread that moves.\<close>

datatype choice = Main | Worker nat

fun pool_step :: "client \<Rightarrow> event list \<Rightarrow> task list \<Rightarrow> nat \<Rightarrow> choice \<Rightarrow> pool \<Rightarrow> pool option" where
  "pool_step self tr0 tasks n Main s = process_tasks_step tasks n s"
| "pool_step self tr0 tasks n (Worker i) s = worker self tr0 i s"

fun pool_exec ::
  "client \<Rightarrow> event list \<Rightarrow> task list \<Rightarrow> nat \<Rightarrow> choice list \<Rightarrow> pool \<Rightarrow> pool option"
where
  "pool_exec self tr0 tasks n [] s = Some s"
| "pool_exec self tr0 tasks n (c # cs) s =
     (case pool_step self tr0 tasks n c s of
        None \<Rightarrow> None
      | Some s' \<Rightarrow> pool_exec self tr0 tasks n cs s')"

text \<open>The states \<open>_process_tasks(tasks, num_workers)\<close> can be in.\<close>

definition reachable :: "client \<Rightarrow> event list \<Rightarrow> task list \<Rightarrow> nat \<Rightarrow> pool \<Rightarrow> bool" where
  "reachable self tr0 tasks n s = (\<exists>sched. pool_exec self tr0 tasks n sched pool_init = Some s)"

text \<open>What the trace records.\<close>

fun somes :: "'a option list \<Rightarrow> 'a list" where
  "somes [] = []"
| "somes (None # xs) = somes xs"
| "somes (Some x # xs) = x # somes xs"

fun calling :: "wstate list \<Rightarrow> task list" where
  "calling [] = []"
| "calling (Calling t # ws) = t # calling ws"
| "calling (w # ws) = calling ws"

fun enqueued :: "event list \<Rightarrow> task list" where
  "enqueued [] = []"
| "enqueued (Enqueued (Some t) # es) = t # enqueued es"
| "enqueued (e # es) = enqueued es"

fun dequeued :: "event list \<Rightarrow> task list" where
  "dequeued [] = []"
| "dequeued (Dequeued i (Some t) # es) = t # dequeued es"
| "dequeued (e # es) = dequeued es"

fun invoked :: "event list \<Rightarrow> task list" where
  "invoked [] = []"
| "invoked (Invoked i t r # es) = t # invoked es"
| "invoked (e # es) = invoked es"

fun failures :: "event list \<Rightarrow> exn list" where
  "failures [] = []"
| "failures (Invoked i t (Inl e) # es) = e # failures es"
| "failures (e # es) = failures es"

section \<open>Invariants of the worker pool\<close>

fun died :: "wstate \<Rightarrow> bool" where
  "died (Died e) = True"
| "died w = False"

text \<open>The stop sentinels put so far.\<close>

definition stops :: "event list \<Rightarrow> nat" where
  "stops tr = count_list tr (Enqueued None)"

text \<open>No task is queued, held by a worker or waiting for its \<open>task_done\<close>.\<close>

definition quiet :: "pool \<Rightarrow> bool" where
  "quiet s = (somes (queue s) = [] \<and> calling (threads s) = [] \<and> count_list (threads s) Finishing = 0)"

text \<open>What the position of the main thread says about the rest of the state.\<close>

definition pc_inv :: "task list \<Rightarrow> nat \<Rightarrow> pool \<Rightarrow> bool" where
  "pc_inv tasks n s =
     (case pc s of
        Spawning k \<Rightarrow> k \<le> n \<and> length (threads s) = k \<and> enqueued (trace s) = [] \<and> stops (trace s) = 0
      | Enqueuing rest \<Rightarrow>
          length (threads s) = n \<and> enqueued (trace s) @ rest = tasks \<and> stops (trace s) = 0
      | Joining \<Rightarrow> length (threads s) = n \<and> enqueued (trace s) = tasks \<and> stops (trace s) = 0
      | Stopping k \<Rightarrow>
          k \<le> n \<and> length (threads s) = n \<and> enqueued (trace s) = tasks \<and> stops (trace s) = k \<and> quiet s
      | Joining_threads i \<Rightarrow>
          i \<le> n \<and> length (threads s) = n \<and> enqueued (trace s) = tasks \<and> stops (trace s) = n \<and>
          quiet s \<and> list_all (\<lambda>w. w = Exited) (take i (threads s))
      | Returned \<Rightarrow>
          length (threads s) = n \<and> enqueued (trace s) = tasks \<and> stops (trace s) = n \<and>
          quiet s \<and> list_all (\<lambda>w. w = Exited) (threads s))"

text \<open>
  The accounting of the queue: every task put is queued, held by a worker or invoked;
  the counter of the queue counts the items not yet acknowledged, sentinels included
  (a worker leaves on a sentinel without \<open>task_done\<close>); every sentinel put is queued or
  has ended one worker; no worker has died.
\<close>

definition pool_inv :: "task list \<Rightarrow> nat \<Rightarrow> pool \<Rightarrow> bool" where
  "pool_inv tasks n s =
     (mset (enqueued (trace s)) =
        mset (somes (queue s)) + mset (calling (threads s)) + mset (invoked (trace s))
      \<and> unfinished_tasks s =
          length (somes (queue s)) + length (calling (threads s)) +
          count_list (threads s) Finishing + stops (trace s)
      \<and> stops (trace s) = count_list (queue s) None + count_list (threads s) Exited
      \<and> list_all (\<lambda>w. \<not> died w) (threads s)
      \<and> pc_inv tasks n s)"

text \<open>What the trace records of the acknowledgements, the threads started, the sentinels taken
  and the threads joined, and the record \<open>LOGGER.error\<close> writes for an exception.\<close>

fun acked :: "event list \<Rightarrow> nat list" where
  "acked [] = []"
| "acked (Acked i # es) = i # acked es"
| "acked (e # es) = acked es"

fun spawned :: "event list \<Rightarrow> nat list" where
  "spawned [] = []"
| "spawned (Spawned k # es) = k # spawned es"
| "spawned (e # es) = spawned es"

fun stopped :: "event list \<Rightarrow> nat list" where
  "stopped [] = []"
| "stopped (Dequeued i None # es) = i # stopped es"
| "stopped (e # es) = stopped es"

fun joined :: "event list \<Rightarrow> nat list" where
  "joined [] = []"
| "joined (Thread_joined i # es) = i # joined es"
| "joined (e # es) = joined es"

definition log_record :: "exn \<Rightarrow> string" where
  "log_record e = ''Error processing task: '' @ exn_str e"

definition trace_inv :: "pool \<Rightarrow> bool" where
  "trace_inv s =
     (mset (enqueued (trace s)) = mset (somes (queue s)) + mset (dequeued (trace s))
      \<and> length (invoked (trace s)) = length (acked (trace s)) + count_list (threads s) Finishing
      \<and> logger s = map log_record (failures (trace s))
      \<and> spawned (trace s) = [0..<length (threads s)]
      \<and> (\<forall>i. count_list (stopped (trace s)) i =
               (if i < length (threads s) \<and> threads s ! i = Exited then 1 else 0))
      \<and> joined (trace s) =
          (case pc s of Joining_threads i \<Rightarrow> [0..<i] | Returned \<Rightarrow> [0..<length (threads s)] | _ \<Rightarrow> []))"

section \<open>A bound on the steps the pool has left\<close>

fun wweight :: "wstate \<Rightarrow> nat" where
  "wweight (Calling t) = 2"
| "wweight Finishing = 1"
| "wweight w = 0"

fun qweight :: "task option \<Rightarrow> nat" where
  "qweight None = 1"
| "qweight (Some t) = 3"

fun mweight :: "task list \<Rightarrow> nat \<Rightarrow> mpc \<Rightarrow> nat" where
  "mweight tasks n (Spawning k) = (n - k) + 4 * length tasks + 3 * n + 5"
| "mweight tasks n (Enqueuing rest) = 4 * length rest + 3 * n + 4"
| "mweight tasks n Joining = 3 * n + 3"
| "mweight tasks n (Stopping k) = 2 * (n - k) + n + 2"
| "mweight tasks n (Joining_threads i) = Suc (n - i)"
| "mweight tasks n Returned = 0"

definition steps_left :: "task list \<Rightarrow> nat \<Rightarrow> pool \<Rightarrow> nat" where
  "steps_left tasks n s =
     mweight tasks n (pc s) + sum_list (map wweight (threads s)) + sum_list (map qweight (queue s))"

section \<open>The run of \<open>send_a_claim_and_its_children\<close>\<close>

definition DEFAULT_NUM_OF_WORKERS :: "nat option \<Rightarrow> nat" where
  "DEFAULT_NUM_OF_WORKERS cpu_count =
     (case cpu_count of None \<Rightarrow> 4 | Some c \<Rightarrow> if c = 0 then 4 else c)"

datatype claim_run = Raised exn "event list" | In_pool "task list" "event list" pool

definition send_a_claim_and_its_children :: "client \<Rightarrow> pydict \<Rightarrow> claim_run" where
  "send_a_claim_and_its_children self bundled_claim =
     (case build_tasks self bundled_claim of
        (Inl e, tr) \<Rightarrow> Raised e tr
      | (Inr tasks, tr) \<Rightarrow> In_pool tasks tr pool_init)"

fun claim_step :: "client \<Rightarrow> nat option \<Rightarrow> choice \<Rightarrow> claim_run \<Rightarrow> claim_run option" where
  "claim_step self cpu_count c (Raised e tr) = None"
| "claim_step self cpu_count c (In_pool tasks tr s) =
     map_option (In_pool tasks tr)
       (pool_step self tr tasks (DEFAULT_NUM_OF_WORKERS cpu_count) c s)"

fun claim_exec :: "client \<Rightarrow> nat option \<Rightarrow> choice list \<Rightarrow> claim_run \<Rightarrow> claim_run option" where
  "claim_exec self cpu_count [] r = Some r"
| "claim_exec self cpu_count (c # cs) r =
     (case claim_step self cpu_count c r of
        None \<Rightarrow> None
      | Some r' \<Rightarrow> claim_exec self cpu_count cs r')"

definition claim_reachable :: "client \<Rightarrow> nat option \<Rightarrow> pydict \<Rightarrow> claim_run \<Rightarrow> bool" where
  "claim_reachable self cpu_count bundled_claim r =
     (\<exists>sched. claim_exec self cpu_count sched (send_a_claim_and_its_children self bundled_claim) = Some r)"

fun claim_trace :: "claim_run \<Rightarrow> event list" where
  "claim_trace (Raised e tr) = tr"
| "claim_trace (In_pool tasks tr s) = tr @ trace s"

fun claim_result :: "claim_run \<Rightarrow> (exn + pyval) option" where
  "claim_result (Raised e tr) = Some (Inl e)"
| "claim_result (In_pool tasks tr s) = (if pc s = Returned then Some (Inr PNone) else None)"

fun called_name :: "event \<Rightarrow> string option" where
  "called_name (Called (Call f kw) r) = Some f"
| "called_name e = None"

definition calls_of :: "string \<Rightarrow> event list \<Rightarrow> event list" where
  "calls_of name tr = filter (\<lambda>e. called_name e = Some name) tr"

fun creation_error :: "event \<Rightarrow> exn option" where
  "creation_error (Called c (Inl e)) = Some e"
| "creation_error (Called c (Inr resp)) =
     (case getitem resp ''id'' of Inl e \<Rightarrow> Some e | Inr v \<Rightarrow> None)"
| "creation_error e = None"

fun creation_id :: "string list \<Rightarrow> event \<Rightarrow> pyval option" where
  "creation_id names (Called (Call f kw) (Inr resp)) =
     (if f \<in> set names then (case getitem resp ''id'' of Inl e \<Rightarrow> None | Inr v \<Rightarrow> Some v)
      else None)"
| "creation_id names e = None"

definition created_ids :: "string list \<Rightarrow> event list \<Rightarrow> pyval list" where
  "created_ids names tr = List.map_filter (creation_id names) tr"

fun parent_calls :: "func \<Rightarrow> string list" where
  "parent_calls Submit_claim_attachment = [''create_claim'']"
| "parent_calls Submit_invoice_attachment = [''submit_invoices'', ''submit_credit_note'']"

fun bound_to :: "event list \<Rightarrow> task \<Rightarrow> bool" where
  "bound_to tr (Task f (parent_id # args)) = (parent_id \<in> set (created_ids (parent_calls f) tr))"
| "bound_to tr (Task f []) = False"

fun task_of :: "event \<Rightarrow> task option" where
  "task_of (Enqueued (Some t)) = Some t"
| "task_of (Dequeued i (Some t)) = Some t"
| "task_of (Invoked i t r) = Some t"
| "task_of e = None"

definition flat_claim :: pydict where
  "flat_claim =
     [(''payer_code'', PInt 1), (''payer_name'', PStr ''Payer''), (''patient_name'', PStr ''Pat''),
      (''member_number'', PStr ''M1''), (''scheme_name'', PStr ''S''), (''visit_number'', PStr ''V1''),
      (''visit_start'', PStr ''2024-01-01T08:00:00''), (''visit_end'', PStr ''2024-01-01T09:00:00''),
      (''icd10_codes'', PList [])]"

definition plain_invoice :: pyval where
  "plain_invoice =
     PDict [(''invoice_number'', PStr ''INV-1''), (''invoice_date'', PStr ''2024-01-01''),
            (''lines'', PList [])]"

definition invoice_with_attachment :: pyval where
  "invoice_with_attachment =
     PDict [(''invoice_number'', PStr ''INV-2''), (''invoice_date'', PStr ''2024-01-01''),
            (''lines'', PList []),
            (''invoice_attachments'', PList [PDict [(''path_to_attachment'', PStr ''rx.pdf'')]])]"

definition credit_note_with_attachment :: pyval where
  "credit_note_with_attachment =
     PDict [(''invoice_number'', PStr ''CRN-1''), (''invoice_date'', PStr ''2024-01-02''),
            (''lines'', PList []),
            (''crn_attachments'', PList [PDict [(''path_to_attachment'', PStr ''rx.pdf'')]])]"

definition claim_attachment :: pyval where
  "claim_attachment =
     PDict [(''path_to_attachment'', PStr ''rx.pdf''), (''attachment_type'', PStr ''PRESCRIPTION'')]"

definition create_event :: "client \<Rightarrow> pydict \<Rightarrow> event" where
  "create_event self bc =
     Called (Call ''create_claim'' (claim_kwargs bc)) (create_claim self [] (claim_kwargs bc))"

definition invoice_event :: "client \<Rightarrow> event list \<Rightarrow> pyval \<Rightarrow> pydict \<Rightarrow> event" where
  "invoice_event self tr claim_id kw =
     Called (Call ''submit_invoices'' ((''claim'', claim_id) # kw))
       (submit_invoices self tr ((''claim'', claim_id) # kw))"

definition credit_note_event :: "client \<Rightarrow> event list \<Rightarrow> pyval \<Rightarrow> pydict \<Rightarrow> event" where
  "credit_note_event self tr claim_id kw =
     Called (Call ''submit_credit_note'' ((''claim'', claim_id) # kw))
       (submit_credit_note self tr ((''claim'', claim_id) # kw))"

definition fail_fast :: "exn + 'a \<Rightarrow> event list \<Rightarrow> bool" where
  "fail_fast res ext =
     (list_all (\<lambda>e. creation_error e = None) ext \<or>
      (\<exists>pre ev e. ext = pre @ [ev] \<and> list_all (\<lambda>e. creation_error e = None) pre \<and>
                   creation_error ev = Some e \<and> res = Inl e))"

definition loop_post ::
  "string \<Rightarrow> nat \<Rightarrow> task list \<Rightarrow> event list \<Rightarrow> (exn + task list) \<Rightarrow> event list \<Rightarrow> bool" where
  "loop_post name k tasks tr res tr' =
     (\<exists>ext. tr' = tr @ ext \<and> length ext \<le> k \<and>
        list_all (\<lambda>e. called_name e = Some name) ext \<and> fail_fast res ext \<and>
        (case res of Inl e \<Rightarrow> True
         | Inr tasks' \<Rightarrow> \<exists>new. tasks' = tasks @ new \<and> list_all (bound_to tr') new))"

fun iter_length :: "pyval \<Rightarrow> nat" where
  "iter_length v = (case py_iter v of Inl e \<Rightarrow> 0 | Inr xs \<Rightarrow> length xs)"

definition build_post :: "client \<Rightarrow> pydict \<Rightarrow> (exn + task list) \<Rightarrow> event list \<Rightarrow> bool" where
  "build_post self bc res tr =
     (\<exists>ext1 ext2. tr = create_event self bc # ext1 @ ext2
        \<and> list_all (\<lambda>e. called_name e = Some ''submit_invoices'') ext1
        \<and> list_all (\<lambda>e. called_name e = Some ''submit_credit_note'') ext2
        \<and> length ext1 \<le> iter_length (dict_get bc ''invoices'' (PList []))
        \<and> length ext2 \<le> iter_length (dict_get bc ''credit_notes'' (PList []))
        \<and> fail_fast res tr
        \<and> (case res of Inl e \<Rightarrow> True | Inr tasks \<Rightarrow> list_all (bound_to tr) tasks))"

section \<open>A concrete client, task list and schedule\<close>

text \<open>
  A server that answers every request with a fresh \<open>id\<close>, a file system with the one
  file \<open>rx.pdf\<close>, two attachment tasks (the second names a missing file, so its
  operation raises FileNotFoundError), and a schedule of two workers that runs
  \<open>_process_tasks\<close> to its return.
\<close>

definition demo_client :: client where
  "demo_client =
     \<lparr>base_is_url = ''https://is.example'',
      transport = (\<lambda>hist req. Inr (PDict [(''id'', PInt (int (length hist)))])),
      path_exists = (\<lambda>p. p = ''rx.pdf''),
      fd_exists = (\<lambda>i. False)\<rparr>"

definition demo_tasks :: "task list" where
  "demo_tasks =
     [Task Submit_claim_attachment [PInt 7, PStr ''rx.pdf'', PStr ''PRESCRIPTION'', PNone],
      Task Submit_invoice_attachment [PInt 8, PStr ''missing.pdf'', PStr []]]"

definition demo_sched :: "choice list" where
  "demo_sched =
     [Main, Main, Main, Main, Main, Main, Worker 1, Worker 0, Worker 1, Worker 0, Worker 0,
      Worker 1, Main, Main, Main, Main, Worker 0, Main, Worker 1, Main, Main]"

definition failing_client :: client where
  "failing_client = demo_client\<lparr>transport := (\<lambda>hist req. Inl (HTTPError ''500 Server Error''))\<rparr>"

definition no_invoice_id_client :: client where
  "no_invoice_id_client =
     demo_client\<lparr>transport :=
       (\<lambda>hist req. if hist = [] then Inr (PDict [(''id'', PStr ''CLM-1'')])
                    else Inr (PDict [(''status'', PStr ''created'')]))\<rparr>"

definition claim_with_attachment :: pydict where
  "claim_with_attachment = (''claim_attachments'', PList [claim_attachment]) # flat_claim"

definition claim_with_two_invoices :: pydict where
  "claim_with_two_invoices = flat_claim @ [(''invoices'', PList [plain_invoice, plain_invoice])]"

definition claim_with_invoice_attachment :: pydict where
  "claim_with_invoice_attachment = flat_claim @ [(''invoices'', PList [invoice_with_attachment])]"

definition claim_with_crn_attachment :: pydict where
  "claim_with_crn_attachment = flat_claim @ [(''credit_notes'', PList [credit_note_with_attachment])]"

definition dispatch_sched :: "choice list" where
  "dispatch_sched = [Main, Main, Main, Worker 0]"

section \<open>The steps of the pool, case by case\<close>

lemma somes_append: "somes (xs @ ys) = somes xs @ somes ys"
  by (induction xs rule: somes.induct) simp_all

lemma calling_append: "calling (xs @ ys) = calling xs @ calling ys"
  by (induction xs rule: calling.induct) simp_all

lemma enqueued_append: "enqueued (xs @ ys) = enqueued xs @ enqueued ys"
  by (induction xs rule: enqueued.induct) simp_all

lemma dequeued_append: "dequeued (xs @ ys) = dequeued xs @ dequeued ys"
  by (induction xs rule: dequeued.induct) simp_all

lemma invoked_append: "invoked (xs @ ys) = invoked xs @ invoked ys"
  by (induction xs rule: invoked.induct) simp_all

lemma failures_append: "failures (xs @ ys) = failures xs @ failures ys"
  by (induction xs rule: failures.induct) simp_all

lemma worker_cases:
  assumes "worker self tr0 i s = Some s'"
  obtains
    (get_stop) A B q where "threads s = A @ Getting # B" "length A = i" "queue s = None # q"
      "s' = s\<lparr>queue := q, threads := A @ Exited # B, trace := trace s @ [Dequeued i None]\<rparr>"
  | (get_task) A B q t where "threads s = A @ Getting # B" "length A = i" "queue s = Some t # q"
      "s' = s\<lparr>queue := q, threads := A @ Calling t # B, trace := trace s @ [Dequeued i (Some t)]\<rparr>"
  | (call) A B t r where "threads s = A @ Calling t # B" "length A = i"
      "r = run_task self (tr0 @ trace s) t"
      "s' = s\<lparr>threads := A @ Finishing # B, trace := trace s @ [Invoked i t r],
               logger := (case r of Inl e \<Rightarrow> logger s @ [''Error processing task: '' @ exn_str e]
                          | Inr v \<Rightarrow> logger s)\<rparr>"
  | (ack) A B where "threads s = A @ Finishing # B" "length A = i" "unfinished_tasks s \<noteq> 0"
      "s' = s\<lparr>unfinished_tasks := unfinished_tasks s - 1, threads := A @ Getting # B,
               trace := trace s @ [Acked i]\<rparr>"
  | (die) A B where "threads s = A @ Finishing # B" "length A = i" "unfinished_tasks s = 0"
      "s' = s\<lparr>threads := A @ Died (ValueError ''task_done() called too many times'') # B\<rparr>"
proof -
  from assms have i: "i < length (threads s)"
    by (simp split: if_splits)
  define A where "A = take i (threads s)"
  define B where "B = drop (Suc i) (threads s)"
  have dec: "threads s = A @ (threads s ! i) # B" and lenA: "length A = i"
    using i by (simp_all add: A_def B_def id_take_nth_drop[symmetric])
  have upd: "\<And>w. (threads s)[i := w] = A @ w # B"
    using i by (simp add: A_def B_def upd_conv_take_nth_drop)
  show thesis
  proof (cases "threads s ! i")
    case Getting
    show ?thesis
    proof (cases "queue s")
      case Nil
      with assms i Getting show ?thesis by simp
    next
      case (Cons x q)
      show ?thesis
      proof (cases x)
        case None
        with assms i Getting Cons dec lenA upd show ?thesis
          by (intro get_stop[of A B q]) simp_all
      next
        case (Some t)
        with assms i Getting Cons dec lenA upd show ?thesis
          by (intro get_task[of A B t q]) simp_all
      qed
    qed
  next
    case (Calling t)
    with assms i dec lenA upd show ?thesis
      by (intro call[of A t B "run_task self (tr0 @ trace s) t"]) (simp_all add: Let_def)
  next
    case Finishing
    show ?thesis
    proof (cases "unfinished_tasks s = 0")
      case True
      with assms i Finishing dec lenA upd show ?thesis
        by (intro die[of A B]) simp_all
    next
      case False
      with assms i Finishing dec lenA upd show ?thesis
        by (intro ack[of A B]) simp_all
    qed
  next
    case Exited
    with assms i show ?thesis by simp
  next
    case (Died e)
    with assms i show ?thesis by simp
  qed
qed

lemma main_cases:
  assumes "process_tasks_step tasks n s = Some s'"
  obtains
    (spawn) k where "pc s = Spawning k" "k < n"
      "s' = s\<lparr>threads := threads s @ [Getting], trace := trace s @ [Spawned k], pc := Spawning (Suc k)\<rparr>"
  | (spawned) k where "pc s = Spawning k" "\<not> k < n" "s' = s\<lparr>pc := Enqueuing tasks\<rparr>"
  | (put) t ts where "pc s = Enqueuing (t # ts)"
      "s' = s\<lparr>queue := queue s @ [Some t], unfinished_tasks := Suc (unfinished_tasks s),
               trace := trace s @ [Enqueued (Some t)], pc := Enqueuing ts\<rparr>"
  | (all_put) "pc s = Enqueuing []" "s' = s\<lparr>pc := Joining\<rparr>"
  | (barrier) "pc s = Joining" "unfinished_tasks s = 0" "s' = s\<lparr>pc := Stopping 0\<rparr>"
  | (stop) k where "pc s = Stopping k" "k < n"
      "s' = s\<lparr>queue := queue s @ [None], unfinished_tasks := Suc (unfinished_tasks s),
               trace := trace s @ [Enqueued None], pc := Stopping (Suc k)\<rparr>"
  | (stopped) k where "pc s = Stopping k" "\<not> k < n" "s' = s\<lparr>pc := Joining_threads 0\<rparr>"
  | (join) i where "pc s = Joining_threads i" "i < length (threads s)" "finished (threads s ! i)"
      "s' = s\<lparr>trace := trace s @ [Thread_joined i], pc := Joining_threads (Suc i)\<rparr>"
  | (return) i where "pc s = Joining_threads i" "\<not> i < length (threads s)" "s' = s\<lparr>pc := Returned\<rparr>"
  using assms by (auto split: mpc.splits list.splits if_splits)

section \<open>The invariant holds in every reachable state\<close>

lemma stops_append: "stops (xs @ ys) = stops xs + stops ys"
  by (simp add: stops_def)

lemma stops_single [simp]:
  "stops [Enqueued None] = 1" "stops [Enqueued (Some t)] = 0" "stops [Spawned k] = 0"
  "stops [Dequeued i x] = 0" "stops [Invoked i t r] = 0" "stops [Acked i] = 0"
  "stops [Thread_joined i] = 0" "stops [] = 0"
  by (simp_all add: stops_def)

lemma pool_inv_init: "pool_inv tasks n pool_init"
  by (simp add: pool_inv_def pc_inv_def pool_init_def stops_def)

lemmas trace_append = somes_append calling_append enqueued_append invoked_append stops_append
  dequeued_append failures_append

lemma pool_inv_worker:
  assumes "pool_inv tasks n s" "worker self tr0 i s = Some s'"
  shows "pool_inv tasks n s'"
  using assms(2)
proof (cases rule: worker_cases)
  case (get_stop A B q)
  with assms(1) show ?thesis
    by (auto simp: pool_inv_def pc_inv_def quiet_def trace_append take_Cons' split: mpc.splits)
next
  case (get_task A B q t)
  with assms(1) show ?thesis
    by (auto simp: pool_inv_def pc_inv_def quiet_def trace_append split: mpc.splits)
next
  case (call A B t r)
  with assms(1) show ?thesis
    by (auto simp: pool_inv_def pc_inv_def quiet_def trace_append split: mpc.splits)
next
  case (ack A B)
  with assms(1) show ?thesis
    by (auto simp: pool_inv_def pc_inv_def quiet_def trace_append split: mpc.splits)
next
  case (die A B)
  with assms(1) show ?thesis
    by (auto simp: pool_inv_def pc_inv_def quiet_def trace_append split: mpc.splits)
qed


lemma finished_not_died: "finished w \<Longrightarrow> \<not> died w \<Longrightarrow> w = Exited"
  by (cases w) simp_all

lemma pool_inv_main:
  assumes "pool_inv tasks n s" "process_tasks_step tasks n s = Some s'"
  shows "pool_inv tasks n s'"
  using assms(2)
proof (cases rule: main_cases)
  case (spawn k)
  with assms(1) show ?thesis
    by (auto simp: pool_inv_def pc_inv_def quiet_def trace_append)
next
  case (spawned k)
  with assms(1) show ?thesis
    by (auto simp: pool_inv_def pc_inv_def quiet_def trace_append)
next
  case (put t ts)
  with assms(1) show ?thesis
    by (auto simp: pool_inv_def pc_inv_def quiet_def trace_append)
next
  case all_put
  with assms(1) show ?thesis
    by (auto simp: pool_inv_def pc_inv_def quiet_def trace_append)
next
  case barrier
  with assms(1) show ?thesis
    by (auto simp: pool_inv_def pc_inv_def quiet_def trace_append)
next
  case (stop k)
  with assms(1) show ?thesis
    by (auto simp: pool_inv_def pc_inv_def quiet_def trace_append)
next
  case (stopped k)
  with assms(1) show ?thesis
    by (auto simp: pool_inv_def pc_inv_def quiet_def trace_append)
next
  case (join i)
  from join assms(1) have "\<not> died (threads s ! i)"
    by (simp add: pool_inv_def list_all_length)
  with join have "threads s ! i = Exited"
    by (simp add: finished_not_died)
  with join assms(1) show ?thesis
    by (auto simp: pool_inv_def pc_inv_def quiet_def trace_append take_Suc_conv_app_nth)
next
  case (return i)
  with assms(1) show ?thesis
    by (auto simp: pool_inv_def pc_inv_def quiet_def trace_append)
qed

lemma pool_inv_step:
  "pool_inv tasks n s \<Longrightarrow> pool_step self tr0 tasks n c s = Some s' \<Longrightarrow> pool_inv tasks n s'"
  by (cases c) (auto intro: pool_inv_main pool_inv_worker)

lemma pool_inv_exec:
  "pool_inv tasks n s \<Longrightarrow> pool_exec self tr0 tasks n sched s = Some s' \<Longrightarrow> pool_inv tasks n s'"
proof (induction sched arbitrary: s)
  case Nil
  then show ?case by simp
next
  case (Cons c cs)
  then show ?case
    by (auto split: option.splits dest: pool_inv_step)
qed

lemma reachable_inv: "reachable self tr0 tasks n s \<Longrightarrow> pool_inv tasks n s"
  unfolding reachable_def using pool_inv_exec[OF pool_inv_init] by blast

section \<open>The trace invariant\<close>

lemma acked_append: "acked (xs @ ys) = acked xs @ acked ys"
  by (induction xs rule: acked.induct) simp_all

lemma spawned_append: "spawned (xs @ ys) = spawned xs @ spawned ys"
  by (induction xs rule: spawned.induct) simp_all

lemma stopped_append: "stopped (xs @ ys) = stopped xs @ stopped ys"
  by (induction xs rule: stopped.induct) simp_all

lemma joined_append: "joined (xs @ ys) = joined xs @ joined ys"
  by (induction xs rule: joined.induct) simp_all

lemmas trace_append2 = trace_append acked_append spawned_append stopped_append joined_append

lemma trace_inv_init: "trace_inv pool_init"
  by (simp add: trace_inv_def pool_init_def)

lemma trace_inv_worker:
  assumes "trace_inv s" "pool_inv tasks n s" "worker self tr0 i s = Some s'"
  shows "trace_inv s'"
  using assms(3)
proof (cases rule: worker_cases)
  case (get_stop A B q)
  with assms(1) show ?thesis
    by (auto simp: trace_inv_def trace_append2 nth_append nth_Cons' split: mpc.splits)
next
  case (get_task A B q t)
  with assms(1) show ?thesis
    by (auto simp: trace_inv_def trace_append2 nth_append nth_Cons' split: mpc.splits)
next
  case (call A B t r)
  with assms(1) show ?thesis
    by (cases "run_task self (tr0 @ trace s) t") (auto simp: trace_inv_def trace_append2 nth_append nth_Cons' log_record_def split: mpc.splits)
next
  case (ack A B)
  with assms(1) show ?thesis
    by (auto simp: trace_inv_def trace_append2 nth_append nth_Cons' split: mpc.splits)
next
  case (die A B)
  with assms(2) show ?thesis
    by (auto simp: pool_inv_def)
qed

lemma trace_inv_main:
  assumes "trace_inv s" "pool_inv tasks n s" "process_tasks_step tasks n s = Some s'"
  shows "trace_inv s'"
  using assms(3)
proof (cases rule: main_cases)
  case (spawn k)
  with assms(1,2) show ?thesis
    by (auto simp: trace_inv_def pool_inv_def pc_inv_def trace_append2 nth_append)
next
  case (spawned k)
  with assms(1) show ?thesis
    by (auto simp: trace_inv_def trace_append2)
next
  case (put t ts)
  with assms(1) show ?thesis
    by (auto simp: trace_inv_def trace_append2)
next
  case all_put
  with assms(1) show ?thesis
    by (auto simp: trace_inv_def trace_append2)
next
  case barrier
  with assms(1) show ?thesis
    by (auto simp: trace_inv_def trace_append2)
next
  case (stop k)
  with assms(1) show ?thesis
    by (auto simp: trace_inv_def trace_append2)
next
  case (stopped k)
  with assms(1) show ?thesis
    by (auto simp: trace_inv_def trace_append2)
next
  case (join i)
  with assms(1) show ?thesis
    by (auto simp: trace_inv_def trace_append2)
next
  case (return i)
  with assms(1,2) show ?thesis
    by (auto simp: trace_inv_def pool_inv_def pc_inv_def trace_append2)
qed

lemma invs_step:
  "pool_inv tasks n s \<and> trace_inv s \<Longrightarrow> pool_step self tr0 tasks n c s = Some s' \<Longrightarrow>
   pool_inv tasks n s' \<and> trace_inv s'"
  by (cases c) (auto intro: pool_inv_main pool_inv_worker trace_inv_main trace_inv_worker)

lemma invs_exec:
  "pool_inv tasks n s \<and> trace_inv s \<Longrightarrow> pool_exec self tr0 tasks n sched s = Some s' \<Longrightarrow>
   pool_inv tasks n s' \<and> trace_inv s'"
proof (induction sched arbitrary: s)
  case Nil
  then show ?case by simp
next
  case (Cons c cs)
  from Cons.prems(2) obtain s1 where
    1: "pool_step self tr0 tasks n c s = Some s1" and 2: "pool_exec self tr0 tasks n cs s1 = Some s'"
    by (auto split: option.splits)
  from invs_step[OF Cons.prems(1) 1] Cons.IH[OF _ 2] show ?case by blast
qed

lemma reachable_trace_inv: "reachable self tr0 tasks n s \<Longrightarrow> trace_inv s"
  unfolding reachable_def using invs_exec[of tasks n pool_init] pool_inv_init trace_inv_init by blast

section \<open>Every step uses up the bound\<close>

lemma steps_left_worker:
  assumes "worker self tr0 i s = Some s'"
  shows "steps_left tasks n s' < steps_left tasks n s"
  using assms by (cases rule: worker_cases) (auto simp: steps_left_def)

lemma steps_left_main:
  assumes "pool_inv tasks n s" "process_tasks_step tasks n s = Some s'"
  shows "steps_left tasks n s' < steps_left tasks n s"
  using assms(2)
proof (cases rule: main_cases)
  case (join i)
  with assms(1) show ?thesis
    by (auto simp: steps_left_def pool_inv_def pc_inv_def)
qed (auto simp: steps_left_def)

lemma steps_left_step:
  "pool_inv tasks n s \<Longrightarrow> pool_step self tr0 tasks n c s = Some s' \<Longrightarrow>
   steps_left tasks n s' < steps_left tasks n s"
  by (cases c) (auto intro: steps_left_main steps_left_worker)

lemma exec_bounded:
  "pool_inv tasks n s \<Longrightarrow> pool_exec self tr0 tasks n sched s = Some s' \<Longrightarrow>
   length sched + steps_left tasks n s' \<le> steps_left tasks n s"
proof (induction sched arbitrary: s)
  case Nil
  then show ?case by simp
next
  case (Cons c cs)
  from Cons.prems(2) obtain s1 where
    1: "pool_step self tr0 tasks n c s = Some s1" and 2: "pool_exec self tr0 tasks n cs s1 = Some s'"
    by (auto split: option.splits)
  have "pool_inv tasks n s1" using Cons.prems(1) 1 by (rule pool_inv_step)
  from Cons.IH[OF this 2] steps_left_step[OF Cons.prems(1) 1] show ?case by simp
qed

section \<open>Some thread can always move\<close>

lemma calling_set: "set (calling ws) = {t. Calling t \<in> set ws}"
  by (induction ws rule: calling.induct) auto

lemma calling_nonempty:
  assumes "calling ws \<noteq> []"
  shows "\<exists>i t. i < length ws \<and> ws ! i = Calling t"
proof -
  from assms obtain t where "t \<in> set (calling ws)"
    by (cases "calling ws") auto
  then have "Calling t \<in> set ws" by (simp add: calling_set)
  then obtain i where "i < length ws" "ws ! i = Calling t"
    by (auto simp: in_set_conv_nth)
  then show ?thesis by blast
qed

lemma count_list_pos:
  assumes "0 < count_list ws x"
  shows "\<exists>i. i < length ws \<and> ws ! i = x"
proof -
  have "count_list ws x = 0" if "x \<notin> set ws"
    using that by (simp add: count_list_0_iff)
  with assms have "x \<in> set ws" by fastforce
  then show ?thesis by (auto simp: in_set_conv_nth)
qed

lemma count_list_less: "i < length ws \<Longrightarrow> ws ! i \<noteq> x \<Longrightarrow> count_list ws x < length ws"
proof (induction ws arbitrary: i)
  case Nil
  then show ?case by simp
next
  case (Cons w ws)
  show ?case
  proof (cases i)
    case 0
    with Cons.prems have "w \<noteq> x" by simp
    moreover have "count_list ws x \<le> length ws" by (rule count_le_length)
    ultimately show ?thesis by simp
  next
    case (Suc j)
    with Cons.prems have "count_list ws x < length ws"
      by (intro Cons.IH[of j]) simp_all
    then show ?thesis by simp
  qed
qed

lemma worker_calling_enabled:
  "i < length (threads s) \<Longrightarrow> threads s ! i = Calling t \<Longrightarrow> \<exists>s'. worker self tr0 i s = Some s'"
  by (simp add: Let_def)

lemma worker_finishing_enabled:
  "i < length (threads s) \<Longrightarrow> threads s ! i = Finishing \<Longrightarrow> \<exists>s'. worker self tr0 i s = Some s'"
  by simp

lemma worker_getting_enabled:
  "i < length (threads s) \<Longrightarrow> threads s ! i = Getting \<Longrightarrow> queue s \<noteq> [] \<Longrightarrow>
   \<exists>s'. worker self tr0 i s = Some s'"
  by (cases "queue s") (auto split: option.splits)

lemma not_busy_getting:
  assumes "i < length ws" "calling ws = []" "count_list ws Finishing = 0"
    "list_all (\<lambda>w. \<not> died w) ws" "ws ! i \<noteq> Exited"
  shows "ws ! i = Getting"
proof (cases "ws ! i")
  case (Calling t)
  with assms(1) have "Calling t \<in> set ws" by (metis nth_mem)
  then have "t \<in> set (calling ws)" by (simp add: calling_set)
  with assms(2) show ?thesis by simp
next
  case Finishing
  with assms(1) have "Finishing \<in> set ws" by (metis nth_mem)
  with assms(3) show ?thesis by (simp add: count_list_0_iff)
next
  case (Died e)
  with assms(1,4) show ?thesis by (auto simp: list_all_length)
qed (use assms(5) in simp_all)

lemma worker_enabled:
  assumes "i < length (threads s)"
    and "(\<exists>t. threads s ! i = Calling t) \<or> threads s ! i = Finishing \<or>
         (threads s ! i = Getting \<and> queue s \<noteq> [])"
  shows "pool_step self tr0 tasks n (Worker i) s \<noteq> None"
  using assms by (cases "queue s") (auto simp: Let_def split: option.splits)

lemma main_enabled:
  assumes "(\<exists>k. pc s = Spawning k) \<or> (\<exists>r. pc s = Enqueuing r) \<or> (\<exists>k. pc s = Stopping k) \<or>
           (pc s = Joining \<and> unfinished_tasks s = 0) \<or>
           (\<exists>i. pc s = Joining_threads i \<and> \<not> (i < length (threads s) \<and> \<not> finished (threads s ! i)))"
  shows "pool_step self tr0 tasks n Main s \<noteq> None"
  using assms by (auto split: list.splits)

lemma pool_progress:
  assumes inv: "pool_inv tasks n s" and n: "1 \<le> n" and pc: "pc s \<noteq> Returned"
  shows "\<exists>c. pool_step self tr0 tasks n c s \<noteq> None"
proof (cases "pc s")
  case (Spawning k)
  then have "pool_step self tr0 tasks n Main s \<noteq> None" by (intro main_enabled) simp
  then show ?thesis by (rule exI)
next
  case (Enqueuing rest)
  then have "pool_step self tr0 tasks n Main s \<noteq> None" by (intro main_enabled) simp
  then show ?thesis by (rule exI)
next
  case Joining
  show ?thesis
  proof (cases "unfinished_tasks s = 0")
    case True
    with Joining have "pool_step self tr0 tasks n Main s \<noteq> None" by (intro main_enabled) simp
    then show ?thesis by (rule exI)
  next
    case False
    from inv Joining have len: "length (threads s) = n" and st: "stops (trace s) = 0"
      by (simp_all add: pool_inv_def pc_inv_def)
    from inv st have noex: "count_list (threads s) Exited = 0" by (simp add: pool_inv_def)
    from inv have nodied: "list_all (\<lambda>w. \<not> died w) (threads s)" by (simp add: pool_inv_def)
    define a where "a = length (somes (queue s))"
    define b where "b = length (calling (threads s))"
    define d where "d = count_list (threads s) Finishing"
    from inv have "unfinished_tasks s = a + b + d + stops (trace s)"
      unfolding pool_inv_def a_def b_def d_def by (elim conjE)
    with False st have "a \<noteq> 0 \<or> b \<noteq> 0 \<or> 0 < d" by arith
    then have busy:
      "somes (queue s) \<noteq> [] \<or> calling (threads s) \<noteq> [] \<or> 0 < count_list (threads s) Finishing"
      unfolding a_def b_def d_def length_0_conv .
    show ?thesis
    proof (cases "calling (threads s) \<noteq> []")
      case True
      from calling_nonempty[OF True]
      obtain i t where i: "i < length (threads s)" and c: "threads s ! i = Calling t"
        by blast
      have "pool_step self tr0 tasks n (Worker i) s \<noteq> None"
        by (rule worker_enabled[OF i]) (simp add: c)
      then show ?thesis by (rule exI)
    next
      case nocall: False
      show ?thesis
      proof (cases "0 < count_list (threads s) Finishing")
        case True
        from count_list_pos[OF True]
        obtain i where i: "i < length (threads s)" and c: "threads s ! i = Finishing"
          by blast
        have "pool_step self tr0 tasks n (Worker i) s \<noteq> None"
          by (rule worker_enabled[OF i]) (simp add: c)
        then show ?thesis by (rule exI)
      next
        case nofin: False
        with busy nocall have "somes (queue s) \<noteq> []" by simp
        then have q: "queue s \<noteq> []" by (cases "queue s") simp_all
        have 0: "0 < length (threads s)" using len n by simp
        then have "threads s ! 0 \<in> set (threads s)" by (rule nth_mem)
        with noex have ne: "threads s ! 0 \<noteq> Exited" by (auto simp: count_list_0_iff)
        from nofin have nofin': "count_list (threads s) Finishing = 0" by simp
        from nocall have nocall': "calling (threads s) = []" by simp
        have "threads s ! 0 = Getting"
          using 0 nocall' nofin' nodied ne by (rule not_busy_getting)
        then have "pool_step self tr0 tasks n (Worker 0) s \<noteq> None"
          by (intro worker_enabled[OF 0]) (simp add: q)
        then show ?thesis by (rule exI)
      qed
    qed
  qed
next
  case (Stopping k)
  then have "pool_step self tr0 tasks n Main s \<noteq> None" by (intro main_enabled) simp
  then show ?thesis by (rule exI)
next
  case (Joining_threads i)
  show ?thesis
  proof (cases "i < length (threads s) \<and> \<not> finished (threads s ! i)")
    case False
    with Joining_threads have "pool_step self tr0 tasks n Main s \<noteq> None"
      by (intro main_enabled) simp
    then show ?thesis by (rule exI)
  next
    case True
    then have i: "i < length (threads s)" and nf: "threads s ! i \<noteq> Exited" by auto
    from inv Joining_threads have len: "length (threads s) = n" and st: "stops (trace s) = n"
      and qu: "quiet s"
      by (simp_all add: pool_inv_def pc_inv_def)
    from inv have nodied: "list_all (\<lambda>w. \<not> died w) (threads s)" by (simp add: pool_inv_def)
    from qu have c0: "calling (threads s) = []" and f0: "count_list (threads s) Finishing = 0"
      by (simp_all add: quiet_def)
    have g: "threads s ! i = Getting"
      using i c0 f0 nodied nf by (rule not_busy_getting)
    have "count_list (threads s) Exited < n"
      using count_list_less[OF i nf] len by simp
    moreover from inv st have "n = count_list (queue s) None + count_list (threads s) Exited"
      by (simp add: pool_inv_def)
    ultimately have "0 < count_list (queue s) None" by simp
    then have "queue s \<noteq> []" by (cases "queue s") simp_all
    with g have "pool_step self tr0 tasks n (Worker i) s \<noteq> None"
      by (intro worker_enabled[OF i]) simp
    then show ?thesis by (rule exI)
  qed
next
  case Returned
  with pc show ?thesis by simp
qed



lemma pool_completes:
  assumes "1 \<le> n"
  shows "pool_inv tasks n s \<Longrightarrow>
    \<exists>sched s'. pool_exec self tr0 tasks n sched s = Some s' \<and> pc s' = Returned"
proof (induction "steps_left tasks n s" arbitrary: s rule: less_induct)
  case less
  show ?case
  proof (cases "pc s = Returned")
    case True
    then have "pool_exec self tr0 tasks n [] s = Some s \<and> pc s = Returned" by simp
    then show ?thesis by (intro exI)
  next
    case False
    with less.prems assms obtain c where "pool_step self tr0 tasks n c s \<noteq> None"
      using pool_progress by blast
    then obtain s1 where 1: "pool_step self tr0 tasks n c s = Some s1"
      by (cases "pool_step self tr0 tasks n c s") simp_all
    have inv1: "pool_inv tasks n s1" using less.prems 1 by (rule pool_inv_step)
    have "steps_left tasks n s1 < steps_left tasks n s" using less.prems 1 by (rule steps_left_step)
    from less.hyps[OF this inv1] obtain sched s' where
      2: "pool_exec self tr0 tasks n sched s1 = Some s'" and 3: "pc s' = Returned" by blast
    from 1 2 3 have "pool_exec self tr0 tasks n (c # sched) s = Some s' \<and> pc s' = Returned" by simp
    then show ?thesis by (intro exI)
  qed
qed

section \<open>What building the task list does\<close>

lemma map_of_filter_key:
  "map_of (filter (\<lambda>kv. fst kv \<noteq> k) d) k' = (if k' = k then None else map_of d k')"
  by (induction d) auto

lemma dict_get_filter: "k' \<noteq> k \<Longrightarrow> dict_get (filter (\<lambda>kv. fst kv \<noteq> k) d) k' dflt = dict_get d k' dflt"
  by (simp add: dict_get_def map_of_filter_key)

lemma claim_kwargs_filter:
  "claim_kwargs bc =
     filter (\<lambda>kv. fst kv \<notin> {''invoices'', ''claim_attachments'', ''credit_notes''}) bc"
  unfolding claim_kwargs_def dict_pop_def snd_conv filter_filter
  by (rule filter_cong) auto

lemma process_invoices_cases:
  assumes "process_invoices self (invoice # rest) tasks cid tr = (res, tr')"
  obtains
    (not_mapping) e where "star_kwargs invoice = Inl e" "res = Inl e" "tr' = tr"
  | (stopped) kw e where "star_kwargs invoice = Inr kw" "res = Inl e"
      "tr' = tr @ [invoice_event self tr cid kw]"
      "creation_error (invoice_event self tr cid kw) = Some e \<or>
       creation_error (invoice_event self tr cid kw) = None"
  | (continued) kw resp inv_id atts tasks' where "star_kwargs invoice = Inr kw"
      "submit_invoices self tr ((''claim'', cid) # kw) = Inr resp"
      "getitem resp ''id'' = Inr inv_id"
      "py_iter (dict_get kw ''invoice_attachments'' (PList [])) = Inr atts"
      "nested_attachment_tasks atts tasks inv_id = Inr tasks'"
      "process_invoices self rest tasks' cid (tr @ [invoice_event self tr cid kw]) = (res, tr')"
proof (cases "star_kwargs invoice")
  case (Inl e)
  with assms show ?thesis by (intro not_mapping[of e]) simp_all
next
  case kw: (Inr kw)
  show ?thesis
  proof (cases "submit_invoices self tr ((''claim'', cid) # kw)")
    case (Inl e)
    with assms kw show ?thesis
      by (intro stopped[of kw e]) (simp_all add: invoice_event_def Let_def)
  next
    case resp: (Inr resp)
    show ?thesis
    proof (cases "getitem resp ''id''")
      case (Inl e)
      with assms kw resp show ?thesis
        by (intro stopped[of kw e]) (simp_all add: invoice_event_def Let_def)
    next
      case pid: (Inr pid)
      show ?thesis
      proof (cases "py_iter (dict_get kw ''invoice_attachments'' (PList []))")
        case (Inl e)
        with assms kw resp pid show ?thesis
          by (intro stopped[of kw e]) (simp_all add: invoice_event_def Let_def)
      next
        case atts: (Inr atts)
        show ?thesis
        proof (cases "nested_attachment_tasks atts tasks pid")
          case (Inl e)
          with assms kw resp pid atts show ?thesis
            by (intro stopped[of kw e]) (simp_all add: invoice_event_def Let_def)
        next
          case (Inr tasks')
          with assms kw resp pid atts show ?thesis
            by (intro continued[of kw resp pid atts tasks']) (simp_all add: invoice_event_def Let_def)
        qed
      qed
    qed
  qed
qed

lemma process_credit_notes_cases:
  assumes "process_credit_notes self (crn # rest) tasks cid tr = (res, tr')"
  obtains
    (not_mapping) e where "star_kwargs crn = Inl e" "res = Inl e" "tr' = tr"
  | (stopped) kw e where "star_kwargs crn = Inr kw" "res = Inl e"
      "tr' = tr @ [credit_note_event self tr cid kw]"
      "creation_error (credit_note_event self tr cid kw) = Some e \<or>
       creation_error (credit_note_event self tr cid kw) = None"
  | (continued) kw resp crn_id atts tasks' where "star_kwargs crn = Inr kw"
      "submit_credit_note self tr ((''claim'', cid) # kw) = Inr resp"
      "getitem resp ''id'' = Inr crn_id"
      "py_iter (dict_get kw ''crn_attachments'' (PList [])) = Inr atts"
      "nested_attachment_tasks atts tasks crn_id = Inr tasks'"
      "process_credit_notes self rest tasks' cid (tr @ [credit_note_event self tr cid kw]) = (res, tr')"
proof (cases "star_kwargs crn")
  case (Inl e)
  with assms show ?thesis by (intro not_mapping[of e]) simp_all
next
  case kw: (Inr kw)
  show ?thesis
  proof (cases "submit_credit_note self tr ((''claim'', cid) # kw)")
    case (Inl e)
    with assms kw show ?thesis
      by (intro stopped[of kw e]) (simp_all add: credit_note_event_def Let_def)
  next
    case resp: (Inr resp)
    show ?thesis
    proof (cases "getitem resp ''id''")
      case (Inl e)
      with assms kw resp show ?thesis
        by (intro stopped[of kw e]) (simp_all add: credit_note_event_def Let_def)
    next
      case pid: (Inr pid)
      show ?thesis
      proof (cases "py_iter (dict_get kw ''crn_attachments'' (PList []))")
        case (Inl e)
        with assms kw resp pid show ?thesis
          by (intro stopped[of kw e]) (simp_all add: credit_note_event_def Let_def)
      next
        case atts: (Inr atts)
        show ?thesis
        proof (cases "nested_attachment_tasks atts tasks pid")
          case (Inl e)
          with assms kw resp pid atts show ?thesis
            by (intro stopped[of kw e]) (simp_all add: credit_note_event_def Let_def)
        next
          case (Inr tasks')
          with assms kw resp pid atts show ?thesis
            by (intro continued[of kw resp pid atts tasks']) (simp_all add: credit_note_event_def Let_def)
        qed
      qed
    qed
  qed
qed

lemma fail_fast_Nil: "fail_fast res []"
  by (simp add: fail_fast_def)

lemma fail_fast_single:
  "creation_error ev = Some e \<and> res = Inl e \<or> creation_error ev = None \<Longrightarrow> fail_fast res [ev]"
proof (elim disjE conjE)
  assume "creation_error ev = Some e" "res = Inl e"
  then have "[ev] = [] @ [ev] \<and> list_all (\<lambda>e. creation_error e = None) [] \<and>
             creation_error ev = Some e \<and> res = Inl e" by simp
  then show ?thesis unfolding fail_fast_def by blast
next
  assume "creation_error ev = None"
  then show ?thesis by (simp add: fail_fast_def)
qed

lemma fail_fast_Cons:
  assumes "creation_error ev = None" "fail_fast res ext"
  shows "fail_fast res (ev # ext)"
proof -
  from assms(2) consider "list_all (\<lambda>e. creation_error e = None) ext"
    | pre ev' e where "ext = pre @ [ev']" "list_all (\<lambda>e. creation_error e = None) pre"
        "creation_error ev' = Some e" "res = Inl e"
    unfolding fail_fast_def by blast
  then show ?thesis
  proof cases
    case 1
    with assms(1) show ?thesis by (simp add: fail_fast_def)
  next
    case 2
    with assms(1) have "ev # ext = (ev # pre) @ [ev']"
      and "list_all (\<lambda>e. creation_error e = None) (ev # pre)" by simp_all
    with 2 show ?thesis unfolding fail_fast_def by blast
  qed
qed

lemma created_ids_append:
  "created_ids names (xs @ ys) = created_ids names xs @ created_ids names ys"
  by (simp add: created_ids_def map_filter_def)

lemma bound_to_append: "bound_to tr t \<Longrightarrow> bound_to (tr @ ext) t"
  by (cases "(tr, t)" rule: bound_to.cases) (auto simp: created_ids_append)

lemma bound_to_prepend: "bound_to ext t \<Longrightarrow> bound_to (tr @ ext) t"
  by (cases "(tr, t)" rule: bound_to.cases) (auto simp: created_ids_append)

lemma nested_attachment_tasks_new:
  "nested_attachment_tasks atts tasks pid = Inr tasks' \<Longrightarrow>
   \<exists>new. tasks' = tasks @ new \<and> length new = length atts \<and>
     list_all (\<lambda>t. \<exists>p d. t = Task Submit_invoice_attachment [pid, p, d]) new"
proof (induction atts arbitrary: tasks)
  case Nil
  then show ?case by simp
next
  case (Cons a atts)
  from Cons.prems obtain p d where
    rec: "nested_attachment_tasks atts (tasks @ [Task Submit_invoice_attachment [pid, p, d]]) pid = Inr tasks'"
    by (auto split: sum.splits)
  from Cons.IH[OF rec] obtain new where
    "tasks' = (tasks @ [Task Submit_invoice_attachment [pid, p, d]]) @ new"
    "length new = length atts"
    "list_all (\<lambda>t. \<exists>p d. t = Task Submit_invoice_attachment [pid, p, d]) new" by blast
  then have "tasks' = tasks @ (Task Submit_invoice_attachment [pid, p, d] # new) \<and>
     length (Task Submit_invoice_attachment [pid, p, d] # new) = length (a # atts) \<and>
     list_all (\<lambda>t. \<exists>p d. t = Task Submit_invoice_attachment [pid, p, d])
       (Task Submit_invoice_attachment [pid, p, d] # new)" by simp
  then show ?case by blast
qed

lemma process_claim_attachments_new:
  "process_claim_attachments atts tasks pid = Inr tasks' \<Longrightarrow>
   \<exists>new. tasks' = tasks @ new \<and> length new = length atts \<and>
     list_all (\<lambda>t. \<exists>p ty d. t = Task Submit_claim_attachment [pid, p, ty, d]) new"
proof (induction atts arbitrary: tasks)
  case Nil
  then show ?case by simp
next
  case (Cons a atts)
  from Cons.prems obtain p ty d where
    rec: "process_claim_attachments atts (tasks @ [Task Submit_claim_attachment [pid, p, ty, d]]) pid = Inr tasks'"
    by (auto split: sum.splits)
  from Cons.IH[OF rec] obtain new where
    "tasks' = (tasks @ [Task Submit_claim_attachment [pid, p, ty, d]]) @ new"
    "length new = length atts"
    "list_all (\<lambda>t. \<exists>p ty d. t = Task Submit_claim_attachment [pid, p, ty, d]) new" by blast
  then have "tasks' = tasks @ (Task Submit_claim_attachment [pid, p, ty, d] # new) \<and>
     length (Task Submit_claim_attachment [pid, p, ty, d] # new) = length (a # atts) \<and>
     list_all (\<lambda>t. \<exists>p ty d. t = Task Submit_claim_attachment [pid, p, ty, d])
       (Task Submit_claim_attachment [pid, p, ty, d] # new)" by simp
  then show ?case by blast
qed

lemma loop_post_stop:
  assumes "called_name ev = Some name"
    and "creation_error ev = Some e \<or> creation_error ev = None"
  shows "loop_post name (Suc k) tasks tr (Inl e) (tr @ [ev])"
  unfolding loop_post_def using assms
  by (intro exI[of _ "[ev]"]) (auto intro: fail_fast_single)

lemma loop_post_continue:
  assumes ev: "called_name ev = Some name" "creation_error ev = None"
    and new: "list_all (bound_to (tr @ [ev])) new1"
    and rec: "loop_post name k (tasks @ new1) (tr @ [ev]) res tr'"
  shows "loop_post name (Suc k) tasks tr res tr'"
proof -
  from rec obtain ext where ext: "tr' = (tr @ [ev]) @ ext" "length ext \<le> k"
    "list_all (\<lambda>e. called_name e = Some name) ext" "fail_fast res ext"
    and tasks: "case res of Inl e \<Rightarrow> True
         | Inr tasks' \<Rightarrow> \<exists>new. tasks' = (tasks @ new1) @ new \<and> list_all (bound_to tr') new"
    unfolding loop_post_def by blast
  have 1: "tr' = tr @ (ev # ext)" using ext(1) by simp
  have 2: "length (ev # ext) \<le> Suc k" using ext(2) by simp
  have 3: "list_all (\<lambda>e. called_name e = Some name) (ev # ext)" using ev(1) ext(3) by simp
  have 4: "fail_fast res (ev # ext)" using ev(2) ext(4) by (rule fail_fast_Cons)
  have 5: "case res of Inl e \<Rightarrow> True
         | Inr tasks' \<Rightarrow> \<exists>new. tasks' = tasks @ new \<and> list_all (bound_to tr') new"
  proof (cases res)
    case (Inl e)
    then show ?thesis by simp
  next
    case (Inr tasks')
    with tasks obtain new where n: "tasks' = (tasks @ new1) @ new" "list_all (bound_to tr') new"
      by auto
    have "bound_to tr' t" if "bound_to (tr @ [ev]) t" for t
      unfolding ext(1) using that by (rule bound_to_append)
    with new have "list_all (bound_to tr') new1"
      by (auto simp: list_all_iff)
    with n have "tasks' = tasks @ (new1 @ new) \<and> list_all (bound_to tr') (new1 @ new)" by simp
    with Inr show ?thesis by auto
  qed
  from 1 2 3 4 5 show ?thesis unfolding loop_post_def by blast
qed

lemma loop_post_refl: "loop_post name k tasks tr (Inr tasks) tr"
  unfolding loop_post_def by (intro exI[of _ "[]"]) (simp add: fail_fast_Nil)

lemma loop_post_abort: "loop_post name k tasks tr (Inl e) tr"
  unfolding loop_post_def by (intro exI[of _ "[]"]) (simp add: fail_fast_Nil)

lemma invoice_event_simps:
  "called_name (invoice_event self tr cid kw) = Some ''submit_invoices''"
  "submit_invoices self tr ((''claim'', cid) # kw) = Inr resp \<Longrightarrow> getitem resp ''id'' = Inr pid \<Longrightarrow>
     creation_error (invoice_event self tr cid kw) = None \<and>
     creation_id [''submit_invoices'', ''submit_credit_note''] (invoice_event self tr cid kw) = Some pid"
  by (simp_all add: invoice_event_def)

lemma credit_note_event_simps:
  "called_name (credit_note_event self tr cid kw) = Some ''submit_credit_note''"
  "submit_credit_note self tr ((''claim'', cid) # kw) = Inr resp \<Longrightarrow> getitem resp ''id'' = Inr pid \<Longrightarrow>
     creation_error (credit_note_event self tr cid kw) = None \<and>
     creation_id [''submit_invoices'', ''submit_credit_note''] (credit_note_event self tr cid kw) = Some pid"
  by (simp_all add: credit_note_event_def)

lemma nested_bound:
  assumes "creation_id [''submit_invoices'', ''submit_credit_note''] ev = Some pid"
    and "list_all (\<lambda>t. \<exists>p d. t = Task Submit_invoice_attachment [pid, p, d]) new"
  shows "list_all (bound_to (tr @ [ev])) new"
  using assms by (auto simp: list_all_iff created_ids_append created_ids_def map_filter_def)

lemma process_invoices_post:
  "process_invoices self invs tasks cid tr = (res, tr') \<Longrightarrow>
   loop_post ''submit_invoices'' (length invs) tasks tr res tr'"
proof (induction invs arbitrary: tasks tr)
  case Nil
  then show ?case by (auto intro: loop_post_refl)
next
  case (Cons invoice rest)
  from Cons.prems show ?case
  proof (cases rule: process_invoices_cases)
    case (not_mapping e)
    then show ?thesis by (auto intro: loop_post_abort)
  next
    case (stopped kw e)
    then show ?thesis
      using loop_post_stop[OF invoice_event_simps(1), of self tr cid kw e "length rest" tasks tr]
      by simp
  next
    case (continued kw resp inv_id atts tasks')
    from nested_attachment_tasks_new[OF continued(5)] obtain new where
      new: "tasks' = tasks @ new"
      "list_all (\<lambda>t. \<exists>p d. t = Task Submit_invoice_attachment [inv_id, p, d]) new"
      by blast
    note ev = invoice_event_simps(2)[OF continued(2,3)]
    have b: "list_all (bound_to (tr @ [invoice_event self tr cid kw])) new"
      using ev new(2) by (intro nested_bound) simp_all
    have "loop_post ''submit_invoices'' (length rest) (tasks @ new)
            (tr @ [invoice_event self tr cid kw]) res tr'"
      using Cons.IH[OF continued(6)] new(1) by simp
    from loop_post_continue[OF invoice_event_simps(1) _ b this] ev show ?thesis by simp
  qed
qed

lemma process_credit_notes_post:
  "process_credit_notes self crns tasks cid tr = (res, tr') \<Longrightarrow>
   loop_post ''submit_credit_note'' (length crns) tasks tr res tr'"
proof (induction crns arbitrary: tasks tr)
  case Nil
  then show ?case by (auto intro: loop_post_refl)
next
  case (Cons crn rest)
  from Cons.prems show ?case
  proof (cases rule: process_credit_notes_cases)
    case (not_mapping e)
    then show ?thesis by (auto intro: loop_post_abort)
  next
    case (stopped kw e)
    then show ?thesis
      using loop_post_stop[OF credit_note_event_simps(1), of self tr cid kw e "length rest" tasks tr]
      by simp
  next
    case (continued kw resp crn_id atts tasks')
    from nested_attachment_tasks_new[OF continued(5)] obtain new where
      new: "tasks' = tasks @ new"
      "list_all (\<lambda>t. \<exists>p d. t = Task Submit_invoice_attachment [crn_id, p, d]) new"
      by blast
    note ev = credit_note_event_simps(2)[OF continued(2,3)]
    have b: "list_all (bound_to (tr @ [credit_note_event self tr cid kw])) new"
      using ev new(2) by (intro nested_bound) simp_all
    have "loop_post ''submit_credit_note'' (length rest) (tasks @ new)
            (tr @ [credit_note_event self tr cid kw]) res tr'"
      using Cons.IH[OF continued(6)] new(1) by simp
    from loop_post_continue[OF credit_note_event_simps(1) _ b this] ev show ?thesis by simp
  qed
qed

lemma build_tasks_unfold:
  "build_tasks self bc =
     (case create_claim self [] (claim_kwargs bc) of
        Inl e \<Rightarrow> (Inl e, [create_event self bc])
      | Inr resp \<Rightarrow>
          (case getitem resp ''id'' of
             Inl e \<Rightarrow> (Inl e, [create_event self bc])
           | Inr claim_id \<Rightarrow>
               (case py_iter (dict_get bc ''claim_attachments'' (PList [])) of
                  Inl e \<Rightarrow> (Inl e, [create_event self bc])
                | Inr cas \<Rightarrow>
                    (case process_claim_attachments cas [] claim_id of
                       Inl e \<Rightarrow> (Inl e, [create_event self bc])
                     | Inr tasks1 \<Rightarrow>
                         (case py_iter (dict_get bc ''invoices'' (PList [])) of
                            Inl e \<Rightarrow> (Inl e, [create_event self bc])
                          | Inr invs \<Rightarrow>
                              (case process_invoices self invs tasks1 claim_id [create_event self bc] of
                                 (Inl e, tr2) \<Rightarrow> (Inl e, tr2)
                               | (Inr tasks2, tr2) \<Rightarrow>
                                   (case py_iter (dict_get bc ''credit_notes'' (PList [])) of
                                      Inl e \<Rightarrow> (Inl e, tr2)
                                    | Inr crns \<Rightarrow>
                                        process_credit_notes self crns tasks2 claim_id tr2)))))))"
  by (simp add: build_tasks_def dict_pop_def claim_kwargs_def create_event_def Let_def
      dict_get_filter cong: sum.case_cong prod.case_cong)

lemma fail_fast_all: "list_all (\<lambda>e. creation_error e = None) ext \<Longrightarrow> fail_fast res ext"
  by (simp add: fail_fast_def)

lemma fail_fast_Inr: "fail_fast (Inr x) ext \<Longrightarrow> list_all (\<lambda>e. creation_error e = None) ext"
  by (auto simp: fail_fast_def)

lemma fail_fast_append:
  "list_all (\<lambda>e. creation_error e = None) pre \<Longrightarrow> fail_fast res ext \<Longrightarrow> fail_fast res (pre @ ext)"
  by (induction pre) (auto intro: fail_fast_Cons)

lemma bound_to_all_append: "list_all (bound_to tr) ts \<Longrightarrow> list_all (bound_to (tr @ ext)) ts"
  by (auto simp: list_all_iff intro: bound_to_append)

lemma build_post_early:
  assumes "creation_error (create_event self bc) = Some e \<or> creation_error (create_event self bc) = None"
  shows "build_post self bc (Inl e) [create_event self bc]"
  unfolding build_post_def using assms
  by (intro exI[of _ "[]"]) (auto intro: fail_fast_single)

lemma build_tasks_post:
  assumes "build_tasks self bc = (res, tr)"
  shows "build_post self bc res tr"
proof -
  let ?ev0 = "create_event self bc"
  note u = assms[unfolded build_tasks_unfold]
  show ?thesis
  proof (cases "create_claim self [] (claim_kwargs bc)")
    case (Inl e)
    with u have "res = Inl e" "tr = [?ev0]" by simp_all
    moreover have "creation_error ?ev0 = Some e" using Inl by (simp add: create_event_def)
    ultimately show ?thesis by (simp add: build_post_early)
  next
    case resp: (Inr resp)
    show ?thesis
    proof (cases "getitem resp ''id''")
      case (Inl e)
      with u resp have "res = Inl e" "tr = [?ev0]" by simp_all
      moreover have "creation_error ?ev0 = Some e" using resp Inl by (simp add: create_event_def)
      ultimately show ?thesis by (simp add: build_post_early)
    next
      case cid: (Inr claim_id)
      have ok0: "creation_error ?ev0 = None" using resp cid by (simp add: create_event_def)
      have id0: "creation_id [''create_claim''] ?ev0 = Some claim_id"
        using resp cid by (simp add: create_event_def)
      show ?thesis
      proof (cases "py_iter (dict_get bc ''claim_attachments'' (PList []))")
        case (Inl e)
        with u resp cid have "res = Inl e" "tr = [?ev0]" by simp_all
        with ok0 show ?thesis by (simp add: build_post_early)
      next
        case cas: (Inr cas)
        show ?thesis
        proof (cases "process_claim_attachments cas [] claim_id")
          case (Inl e)
          with u resp cid cas have "res = Inl e" "tr = [?ev0]" by simp_all
          with ok0 show ?thesis by (simp add: build_post_early)
        next
          case t1: (Inr tasks1)
          from process_claim_attachments_new[OF t1] have
            "list_all (\<lambda>t. \<exists>p ty d. t = Task Submit_claim_attachment [claim_id, p, ty, d]) tasks1"
            by auto
          with id0 have b1: "list_all (bound_to [?ev0]) tasks1"
            by (auto simp: list_all_iff created_ids_def map_filter_def)
          show ?thesis
          proof (cases "py_iter (dict_get bc ''invoices'' (PList []))")
            case (Inl e)
            with u resp cid cas t1 have "res = Inl e" "tr = [?ev0]" by simp_all
            with ok0 show ?thesis by (simp add: build_post_early)
          next
            case invs: (Inr invs)
            obtain res2 tr2 where
              p2: "process_invoices self invs tasks1 claim_id [?ev0] = (res2, tr2)"
              by (cases "process_invoices self invs tasks1 claim_id [?ev0]") auto
            from process_invoices_post[OF p2] obtain ext1 where
              e1: "tr2 = [?ev0] @ ext1" "length ext1 \<le> length invs"
              "list_all (\<lambda>e. called_name e = Some ''submit_invoices'') ext1"
              "fail_fast res2 ext1"
              and n1: "case res2 of Inl e \<Rightarrow> True
                 | Inr tasks' \<Rightarrow> \<exists>new. tasks' = tasks1 @ new \<and> list_all (bound_to tr2) new"
              unfolding loop_post_def by blast
            have len1: "length ext1 \<le> iter_length (dict_get bc ''invoices'' (PList []))"
              using e1(2) invs by simp
            have ff2: "fail_fast res2 tr2"
              unfolding e1(1) using ok0 e1(4) by (intro fail_fast_append) simp_all
            show ?thesis
            proof (cases res2)
              case (Inl e)
              with u resp cid cas t1 invs p2 have r: "res = Inl e" "tr = tr2" by simp_all
              have "tr = ?ev0 # ext1 @ []" using r e1(1) by simp
              moreover have "fail_fast res tr" using ff2 r Inl by simp
              ultimately show ?thesis
                unfolding build_post_def using e1(3) len1 r(1)
                by (intro exI[of _ ext1] exI[of _ "[]"]) simp
            next
              case t2: (Inr tasks2)
              with n1 obtain new where new: "tasks2 = tasks1 @ new" "list_all (bound_to tr2) new"
                by auto
              have "list_all (bound_to tr2) tasks1"
                unfolding e1(1) using b1 by (rule bound_to_all_append)
              with new have b2: "list_all (bound_to tr2) tasks2" by simp
              from fail_fast_Inr[of tasks2 ext1] e1(4) t2 have
                ok1: "list_all (\<lambda>e. creation_error e = None) ext1" by simp
              with ok0 have ok2: "list_all (\<lambda>e. creation_error e = None) tr2"
                unfolding e1(1) by simp
              show ?thesis
              proof (cases "py_iter (dict_get bc ''credit_notes'' (PList []))")
                case (Inl e)
                with u resp cid cas t1 invs p2 t2 have r: "res = Inl e" "tr = tr2" by simp_all
                have "tr = ?ev0 # ext1 @ []" using r e1(1) by simp
                moreover have "fail_fast res tr" using ok2 r by (simp add: fail_fast_all)
                ultimately show ?thesis
                  unfolding build_post_def using e1(3) len1 r(1)
                  by (intro exI[of _ ext1] exI[of _ "[]"]) simp
              next
                case crns: (Inr crns)
                with u resp cid cas t1 invs p2 t2 have
                  p3: "process_credit_notes self crns tasks2 claim_id tr2 = (res, tr)" by simp
                from process_credit_notes_post[OF p3] obtain ext2 where
                  e2: "tr = tr2 @ ext2" "length ext2 \<le> length crns"
                  "list_all (\<lambda>e. called_name e = Some ''submit_credit_note'') ext2"
                  "fail_fast res ext2"
                  and n2: "case res of Inl e \<Rightarrow> True
                     | Inr tasks' \<Rightarrow> \<exists>new. tasks' = tasks2 @ new \<and> list_all (bound_to tr) new"
                  unfolding loop_post_def by blast
                have 1: "tr = ?ev0 # ext1 @ ext2" using e1(1) e2(1) by simp
                have 2: "length ext2 \<le> iter_length (dict_get bc ''credit_notes'' (PList []))"
                  using e2(2) crns by simp
                have 3: "fail_fast res tr"
                  unfolding e2(1) using ok2 e2(4) by (rule fail_fast_append)
                have 4: "case res of Inl e \<Rightarrow> True | Inr tasks \<Rightarrow> list_all (bound_to tr) tasks"
                proof (cases res)
                  case (Inl e)
                  then show ?thesis by simp
                next
                  case (Inr tasks)
                  with n2 obtain new2 where
                    new2: "tasks = tasks2 @ new2" "list_all (bound_to tr) new2" by auto
                  have "list_all (bound_to tr) tasks2"
                    unfolding e2(1) using b2 by (rule bound_to_all_append)
                  with new2 Inr show ?thesis by simp
                qed
                from 1 2 3 4 e1(3) e2(3) len1 show ?thesis
                  unfolding build_post_def by blast
              qed
            qed
          qed
        qed
      qed
    qed
  qed
qed

section \<open>Facts about the orchestrator\<close>

lemma claim_exec_Raised:
  "claim_exec self cpu sched (Raised e tr) = Some r \<Longrightarrow> sched = [] \<and> r = Raised e tr"
  by (cases sched) simp_all

lemma claim_exec_In_pool:
  "claim_exec self cpu sched (In_pool tasks tr s0) = Some r \<Longrightarrow>
   \<exists>s. r = In_pool tasks tr s \<and>
       pool_exec self tr tasks (DEFAULT_NUM_OF_WORKERS cpu) sched s0 = Some s"
proof (induction sched arbitrary: s0)
  case Nil
  then show ?case by simp
next
  case (Cons c cs)
  from Cons.prems obtain s1 where
    1: "pool_step self tr tasks (DEFAULT_NUM_OF_WORKERS cpu) c s0 = Some s1"
    and 2: "claim_exec self cpu cs (In_pool tasks tr s1) = Some r"
    by (cases "pool_step self tr tasks (DEFAULT_NUM_OF_WORKERS cpu) c s0") simp_all
  from Cons.IH[OF 2] 1 show ?case by simp
qed

lemma build_trace_calls:
  assumes "build_tasks self bc = (res, tr)"
  shows "list_all (\<lambda>e. called_name e \<noteq> None) tr"
proof -
  from build_tasks_post[OF assms] obtain ext1 ext2 where
    "tr = create_event self bc # ext1 @ ext2"
    "list_all (\<lambda>e. called_name e = Some ''submit_invoices'') ext1"
    "list_all (\<lambda>e. called_name e = Some ''submit_credit_note'') ext2"
    unfolding build_post_def by blast
  then show ?thesis by (auto simp: list_all_iff create_event_def)
qed

lemma create_claim_once:
  assumes "build_tasks self bc = (res, tr)"
  shows "\<exists>ext. tr = create_event self bc # ext \<and> calls_of ''create_claim'' ext = []"
proof -
  from build_tasks_post[OF assms] obtain ext1 ext2 where
    "tr = create_event self bc # ext1 @ ext2"
    "list_all (\<lambda>e. called_name e = Some ''submit_invoices'') ext1"
    "list_all (\<lambda>e. called_name e = Some ''submit_credit_note'') ext2"
    unfolding build_post_def by blast
  then have "tr = create_event self bc # (ext1 @ ext2) \<and> calls_of ''create_claim'' (ext1 @ ext2) = []"
    by (auto simp: list_all_iff calls_of_def filter_empty_conv)
  then show ?thesis by blast
qed

lemma create_claim_failure:
  assumes "create_claim self [] (claim_kwargs bc) = Inl e"
  shows "send_a_claim_and_its_children self bc = Raised e [create_event self bc]"
  using assms by (simp add: send_a_claim_and_its_children_def build_tasks_unfold)

lemma failing_create:
  "create_claim failing_client [] (claim_kwargs claim_with_two_invoices) = Inl (HTTPError ''500 Server Error'')
   \<and> claim_kwargs claim_with_two_invoices = flat_claim"
  by (simp add: failing_client_def demo_client_def claim_with_two_invoices_def flat_claim_def
      claim_kwargs_def dict_pop_def create_claim_def bind_keywords_def
      create_claim_required_def create_claim_optional_def)

lemma fail_fast_last:
  assumes "fail_fast res tr" and "ev \<in> set tr" and "creation_error ev = Some e"
  shows "last tr = ev \<and> res = Inl e"
proof -
  from assms(2,3) have "\<not> list_all (\<lambda>e. creation_error e = None) tr"
    by (auto simp: list_all_iff)
  with assms(1) obtain pre ev' e' where
    tr: "tr = pre @ [ev']" and pre: "list_all (\<lambda>e. creation_error e = None) pre"
    and ev': "creation_error ev' = Some e'" and res: "res = Inl e'"
    unfolding fail_fast_def by blast
  from assms(2,3) tr pre have "ev = ev'" by (auto simp: list_all_iff)
  with assms(3) ev' tr res show ?thesis by simp
qed

lemma creation_aborts:
  assumes "build_tasks self bc = (res, tr)" and "ev \<in> set tr" and "creation_error ev = Some e"
  shows "last tr = ev \<and> res = Inl e \<and> send_a_claim_and_its_children self bc = Raised e tr"
proof -
  from build_tasks_post[OF assms(1)] have "fail_fast res tr" unfolding build_post_def by blast
  from fail_fast_last[OF this assms(2,3)] assms(1) show ?thesis
    by (simp add: send_a_claim_and_its_children_def)
qed

lemma no_invoice_id_build:
  "build_tasks no_invoice_id_client claim_with_two_invoices =
     (Inl (KeyError ''id''),
      [Called (Call ''create_claim'' flat_claim) (Inr (PDict [(''id'', PStr ''CLM-1'')])),
       Called (Call ''submit_invoices''
                [(''claim'', PStr ''CLM-1''), (''invoice_number'', PStr ''INV-1''),
                 (''invoice_date'', PStr ''2024-01-01''), (''lines'', PList [])])
              (Inr (PDict [(''status'', PStr ''created'')]))])"
  by (simp add: build_tasks_def no_invoice_id_client_def demo_client_def claim_with_two_invoices_def
      flat_claim_def plain_invoice_def dict_pop_def dict_get_def create_claim_def bind_keywords_def
      create_claim_required_def create_claim_optional_def submit_invoices_def)

lemma bind_keywords_keys:
  "bind_keywords required optional kw = Inr b \<Longrightarrow> map_of kw k = Some v \<Longrightarrow> k \<in> set (required @ optional)"
  by (auto simp: bind_keywords_def list_ex_iff split: if_splits dest!: map_of_SomeD)

lemma submit_invoices_rejects_attachments:
  assumes "map_of kw ''invoice_attachments'' = Some v"
  shows "\<exists>m. submit_invoices self tr ((''claim'', cid) # kw) = Inl (TypeError m)"
proof (cases "bind_keywords [''claim'', ''invoice_number'', ''invoice_date'', ''lines''] [''copays'']
                ((''claim'', cid) # kw)")
  case (Inl e)
  then show ?thesis
    by (auto simp: submit_invoices_def bind_keywords_def split: if_splits)
next
  case (Inr b)
  from assms have "map_of ((''claim'', cid) # kw) ''invoice_attachments'' = Some v" by simp
  from bind_keywords_keys[OF Inr this] show ?thesis by simp
qed

lemma submit_credit_note_rejects_attachments:
  assumes "map_of kw ''crn_attachments'' = Some v"
  shows "\<exists>m. submit_credit_note self tr ((''claim'', cid) # kw) = Inl (TypeError m)"
proof (cases "bind_keywords [''claim'', ''invoice_number'', ''invoice_date'', ''lines''] []
                ((''claim'', cid) # kw)")
  case (Inl e)
  then show ?thesis
    by (auto simp: submit_credit_note_def bind_keywords_def split: if_splits)
next
  case (Inr b)
  from assms have "map_of ((''claim'', cid) # kw) ''crn_attachments'' = Some v" by simp
  from bind_keywords_keys[OF Inr this] show ?thesis by simp
qed

lemma process_invoices_no_tasks:
  "process_invoices self invs tasks cid tr = (Inr tasks', tr') \<Longrightarrow> tasks' = tasks"
proof (induction invs arbitrary: tasks tr)
  case Nil
  then show ?case by simp
next
  case (Cons invoice rest)
  from Cons.prems show ?case
  proof (cases rule: process_invoices_cases)
    case (continued kw resp inv_id atts tasks1)
    have "map_of kw ''invoice_attachments'' = None"
    proof (cases "map_of kw ''invoice_attachments''")
      case (Some v)
      from submit_invoices_rejects_attachments[OF Some, of self tr cid] continued(2)
      show ?thesis by simp
    qed simp
    with continued(4) have "atts = []" by (simp add: dict_get_def)
    with continued(5) have "tasks1 = tasks" by simp
    with Cons.IH[OF continued(6)] show ?thesis by simp
  qed simp_all
qed

lemma process_credit_notes_no_tasks:
  "process_credit_notes self crns tasks cid tr = (Inr tasks', tr') \<Longrightarrow> tasks' = tasks"
proof (induction crns arbitrary: tasks tr)
  case Nil
  then show ?case by simp
next
  case (Cons crn rest)
  from Cons.prems show ?case
  proof (cases rule: process_credit_notes_cases)
    case (continued kw resp crn_id atts tasks1)
    have "map_of kw ''crn_attachments'' = None"
    proof (cases "map_of kw ''crn_attachments''")
      case (Some v)
      from submit_credit_note_rejects_attachments[OF Some, of self tr cid] continued(2)
      show ?thesis by simp
    qed simp
    with continued(4) have "atts = []" by (simp add: dict_get_def)
    with continued(5) have "tasks1 = tasks" by simp
    with Cons.IH[OF continued(6)] show ?thesis by simp
  qed simp_all
qed

lemma no_nested_attachment_task_is_ever_built:
  assumes "build_tasks self bc = (Inr tasks, tr)"
  shows "list_all (\<lambda>t. task_func t = Submit_claim_attachment) tasks"
proof -
  note u = assms[unfolded build_tasks_unfold]
  from u obtain resp where resp: "create_claim self [] (claim_kwargs bc) = Inr resp"
    by (cases "create_claim self [] (claim_kwargs bc)") auto
  from u resp obtain cid where cid: "getitem resp ''id'' = Inr cid"
    by (cases "getitem resp ''id''") auto
  from u resp cid obtain cas where cas: "py_iter (dict_get bc ''claim_attachments'' (PList [])) = Inr cas"
    by (cases "py_iter (dict_get bc ''claim_attachments'' (PList []))") auto
  from u resp cid cas obtain tasks1 where t1: "process_claim_attachments cas [] cid = Inr tasks1"
    by (cases "process_claim_attachments cas [] cid") auto
  from u resp cid cas t1 obtain invs where invs: "py_iter (dict_get bc ''invoices'' (PList [])) = Inr invs"
    by (cases "py_iter (dict_get bc ''invoices'' (PList []))") auto
  obtain res2 tr2 where p2: "process_invoices self invs tasks1 cid [create_event self bc] = (res2, tr2)"
    by (cases "process_invoices self invs tasks1 cid [create_event self bc]") auto
  from u resp cid cas t1 invs p2 obtain tasks2 where t2: "res2 = Inr tasks2"
    by (cases res2) auto
  from u resp cid cas t1 invs p2 t2 obtain crns where
    crns: "py_iter (dict_get bc ''credit_notes'' (PList [])) = Inr crns"
    by (cases "py_iter (dict_get bc ''credit_notes'' (PList []))") auto
  from u resp cid cas t1 invs p2 t2 crns have
    p3: "process_credit_notes self crns tasks2 cid tr2 = (Inr tasks, tr)" by simp
  from process_invoices_no_tasks[OF p2[unfolded t2]] process_credit_notes_no_tasks[OF p3]
  have "tasks = tasks1" by simp
  moreover from process_claim_attachments_new[OF t1]
  have "list_all (\<lambda>t. task_func t = Submit_claim_attachment) tasks1"
    by (auto simp: list_all_iff)
  ultimately show ?thesis by simp
qed

lemma task_of_called: "called_name e \<noteq> None \<Longrightarrow> task_of e = None"
  by (cases e rule: called_name.cases) simp_all

lemma task_of_member:
  "e \<in> set tr \<Longrightarrow> task_of e = Some t \<Longrightarrow>
   t \<in> set (enqueued tr) \<or> t \<in> set (dequeued tr) \<or> t \<in> set (invoked tr)"
proof (induction tr)
  case Nil
  then show ?case by simp
next
  case (Cons x tr)
  show ?case
  proof (cases "e = x")
    case True
    with Cons.prems(2) show ?thesis
      by (cases x rule: task_of.cases) simp_all
  next
    case False
    with Cons.prems have "e \<in> set tr" by simp
    from Cons.IH[OF this Cons.prems(2)] show ?thesis
      by (cases x rule: task_of.cases) auto
  qed
qed

lemma pool_tasks_given:
  assumes "pool_inv tasks n s" "trace_inv s"
  shows "set (enqueued (trace s)) \<subseteq> set tasks"
    and "set (dequeued (trace s)) \<subseteq> set tasks"
    and "set (invoked (trace s)) \<subseteq> set tasks"
proof -
  show e: "set (enqueued (trace s)) \<subseteq> set tasks"
    using assms(1) by (cases "pc s") (auto simp: pool_inv_def pc_inv_def)
  from assms(2) have "mset (enqueued (trace s)) = mset (somes (queue s)) + mset (dequeued (trace s))"
    by (simp add: trace_inv_def)
  then have "set (dequeued (trace s)) \<subseteq> set (enqueued (trace s))"
    by (metis mset_subset_eq_add_right set_mset_mono set_mset_mset)
  with e show "set (dequeued (trace s)) \<subseteq> set tasks" by blast
  from assms(1) have "mset (enqueued (trace s)) =
        mset (somes (queue s)) + mset (calling (threads s)) + mset (invoked (trace s))"
    by (simp add: pool_inv_def)
  then have "set (invoked (trace s)) \<subseteq> set (enqueued (trace s))"
    by (metis mset_subset_eq_add_right set_mset_mono set_mset_mset)
  with e show "set (invoked (trace s)) \<subseteq> set tasks" by blast
qed

lemma claim_reachable_cases:
  assumes "claim_reachable self cpu bc r"
  obtains (raised) e tr where "build_tasks self bc = (Inl e, tr)" "r = Raised e tr"
  | (pooled) tasks tr s where "build_tasks self bc = (Inr tasks, tr)" "r = In_pool tasks tr s"
      "reachable self tr tasks (DEFAULT_NUM_OF_WORKERS cpu) s"
proof -
  from assms obtain sched where
    ex: "claim_exec self cpu sched (send_a_claim_and_its_children self bc) = Some r"
    unfolding claim_reachable_def by blast
  obtain res tr where b: "build_tasks self bc = (res, tr)" by (cases "build_tasks self bc") auto
  show thesis
  proof (cases res)
    case (Inl e)
    with b have "send_a_claim_and_its_children self bc = Raised e tr"
      by (simp add: send_a_claim_and_its_children_def)
    with ex have "r = Raised e tr" by (simp add: claim_exec_Raised)
    with b Inl show ?thesis by (intro raised[of e tr]) simp_all
  next
    case (Inr tasks)
    with b have "send_a_claim_and_its_children self bc = In_pool tasks tr pool_init"
      by (simp add: send_a_claim_and_its_children_def)
    with ex claim_exec_In_pool[of self cpu sched tasks tr pool_init r] obtain s where
      "r = In_pool tasks tr s"
      "pool_exec self tr tasks (DEFAULT_NUM_OF_WORKERS cpu) sched pool_init = Some s" by auto
    then have "r = In_pool tasks tr s" "reachable self tr tasks (DEFAULT_NUM_OF_WORKERS cpu) s"
      unfolding reachable_def by blast+
    with b Inr show ?thesis by (intro pooled[of tasks tr s]) simp_all
  qed
qed

lemma dispatch_run:
  "claim_exec demo_client (Some 1) dispatch_sched
     (send_a_claim_and_its_children demo_client claim_with_attachment) =
   Some (In_pool
     [Task Submit_claim_attachment [PInt 0, PStr ''rx.pdf'', PStr ''PRESCRIPTION'', PNone]]
     [Called (Call ''create_claim'' flat_claim) (Inr (PDict [(''id'', PInt 0)]))]
     \<lparr>pc = Enqueuing [], queue = [], unfinished_tasks = 1,
      threads = [Calling (Task Submit_claim_attachment [PInt 0, PStr ''rx.pdf'', PStr ''PRESCRIPTION'', PNone])],
      trace = [Spawned 0,
               Enqueued (Some (Task Submit_claim_attachment [PInt 0, PStr ''rx.pdf'', PStr ''PRESCRIPTION'', PNone])),
               Dequeued 0 (Some (Task Submit_claim_attachment [PInt 0, PStr ''rx.pdf'', PStr ''PRESCRIPTION'', PNone]))],
      logger = []\<rparr>)"
  by (simp add: send_a_claim_and_its_children_def build_tasks_def demo_client_def
      claim_with_attachment_def claim_attachment_def dispatch_sched_def
      flat_claim_def dict_pop_def dict_get_def create_claim_def bind_keywords_def
      create_claim_required_def create_claim_optional_def pool_init_def DEFAULT_NUM_OF_WORKERS_def)

section \<open>The claims about \<open>_process_tasks\<close>\<close>

lemma reachable_invs:
  assumes "reachable self tr0 tasks n s"
  shows "pool_inv tasks n s" and "trace_inv s"
  using assms reachable_inv reachable_trace_inv by blast+

lemma demo_run:
  "\<exists>s. pool_exec demo_client [] demo_tasks 2 demo_sched pool_init = Some s \<and> pc s = Returned"
  by (simp add: demo_client_def demo_tasks_def demo_sched_def pool_init_def)

lemma demo_reachable: "\<exists>s. reachable demo_client [] demo_tasks 2 s \<and> pc s = Returned"
  using demo_run unfolding reachable_def by blast

lemma steps_left_init: "steps_left tasks n pool_init = 4 * n + 4 * length tasks + 5"
  by (simp add: steps_left_def pool_init_def)

lemma count_list_all: "list_all (\<lambda>w. w = x) ws \<Longrightarrow> count_list ws x = length ws"
  by (induction ws) simp_all

lemma no_items: "somes q = [] \<Longrightarrow> count_list q None = 0 \<Longrightarrow> q = []"
  by (cases q rule: somes.cases) simp_all

lemma failing_task_logged_and_acked:
  assumes inv: "pool_inv tasks n s" and i: "i < length (threads s)"
    and c: "threads s ! i = Calling t" and e: "run_task self (tr0 @ trace s) t = Inl e"
  shows "\<exists>s1 s2. worker self tr0 i s = Some s1 \<and> logger s1 = logger s @ [log_record e] \<and>
           worker self tr0 i s1 = Some s2 \<and> threads s2 ! i = Getting \<and>
           Suc (unfinished_tasks s2) = unfinished_tasks s \<and>
           trace s2 = trace s @ [Invoked i t (Inl e), Acked i]"
proof -
  define s1 where "s1 = s\<lparr>threads := (threads s)[i := Finishing],
                         trace := trace s @ [Invoked i t (Inl e)],
                         logger := logger s @ [log_record e]\<rparr>"
  define s2 where "s2 = s1\<lparr>unfinished_tasks := unfinished_tasks s1 - 1,
                          threads := (threads s1)[i := Getting],
                          trace := trace s1 @ [Acked i]\<rparr>"
  from i c have "t \<in> set (calling (threads s))"
    by (auto simp: calling_set in_set_conv_nth)
  then have "calling (threads s) \<noteq> []" by auto
  with inv have u: "unfinished_tasks s \<noteq> 0" by (simp add: pool_inv_def)
  have 1: "worker self tr0 i s = Some s1"
    using i c e by (simp add: s1_def log_record_def)
  have 2: "worker self tr0 i s1 = Some s2"
    using i u by (simp add: s1_def s2_def)
  have "logger s1 = logger s @ [log_record e]" by (simp add: s1_def)
  moreover have "threads s2 ! i = Getting" using i by (simp add: s1_def s2_def)
  moreover have "Suc (unfinished_tasks s2) = unfinished_tasks s" using u by (simp add: s1_def s2_def)
  moreover have "trace s2 = trace s @ [Invoked i t (Inl e), Acked i]" by (simp add: s1_def s2_def)
  ultimately show ?thesis using 1 2 by blast
qed

lemma demo_run_failure:
  "\<exists>s. pool_exec demo_client [] demo_tasks 2 demo_sched pool_init = Some s \<and> pc s = Returned
       \<and> failures (trace s) = [FileNotFoundError ''Attachment file not found.'']"
  by (simp add: demo_client_def demo_tasks_def demo_sched_def pool_init_def)

text \<open>
  C2. For every task list and every worker count of at least 1, in every interleaving of
  the main thread and the workers, \<open>_process_tasks\<close> has not returned before every
  enqueued task has been dequeued and its operation invoked exactly once, by exactly one
  worker: in a state where the main thread has returned, the tasks dequeued by the
  workers and the tasks invoked by the workers are, as multisets, the tasks given.
\<close>

theorem process_tasks_completion_barrier:
  assumes "1 \<le> n" and "reachable self tr0 tasks n s" and "pc s = Returned"
  shows "mset (dequeued (trace s)) = mset tasks \<and> mset (invoked (trace s)) = mset tasks"
proof -
  from assms(2) have "pool_inv tasks n s" and "trace_inv s"
    by (rule reachable_invs)+
  with assms(3) show ?thesis
    by (auto simp: pool_inv_def trace_inv_def pc_inv_def quiet_def)
qed

theorem process_tasks_completion_barrier_witness:
  "\<exists>s. (1::nat) \<le> 2 \<and> reachable demo_client [] demo_tasks 2 s \<and> pc s = Returned
       \<and> mset (dequeued (trace s)) = mset demo_tasks \<and> mset (invoked (trace s)) = mset demo_tasks"
proof -
  obtain s where r: "reachable demo_client [] demo_tasks 2 s" and ret: "pc s = Returned"
    using demo_reachable by blast
  have "(1::nat) \<le> 2" by simp
  from process_tasks_completion_barrier[OF this r ret] r ret show ?thesis by auto
qed

text \<open>
  C5. For every call of \<open>_process_tasks\<close> with a worker count \<open>n\<close> of at least 1, in
  every state any interleaving reaches: the threads started are numbered \<open>0..<\<close> the
  number of threads, never more than \<open>n\<close>, and once anything has been put on the queue
  (a task or a sentinel) exactly \<open>n\<close> workers have been started; never more than \<open>n\<close>
  sentinels are put, and once one has been put the join barrier has been passed (the
  counter of the queue counts only the sentinels, every task has been invoked and
  acknowledged, none is queued or held); and when \<open>_process_tasks\<close> has returned,
  exactly \<open>n\<close> workers were started, exactly \<open>n\<close> sentinels were put, every worker has
  taken exactly one of them, the queue is empty, every worker thread has ended and has
  been joined.
\<close>

theorem process_tasks_pool_lifecycle:
  assumes "1 \<le> n" and "reachable self tr0 tasks n s"
  shows "spawned (trace s) = [0..<length (threads s)] \<and> length (threads s) \<le> n \<and> stops (trace s) \<le> n
    \<and> (enqueued (trace s) \<noteq> [] \<or> 0 < stops (trace s) \<longrightarrow> spawned (trace s) = [0..<n])
    \<and> (0 < stops (trace s) \<longrightarrow>
          unfinished_tasks s = stops (trace s) \<and> quiet s \<and> mset (invoked (trace s)) = mset tasks \<and>
          length (acked (trace s)) = length tasks)
    \<and> (pc s = Returned \<longrightarrow>
          spawned (trace s) = [0..<n] \<and> stops (trace s) = n \<and>
          (\<forall>i<n. count_list (stopped (trace s)) i = 1) \<and> queue s = [] \<and>
          length (threads s) = n \<and> list_all (\<lambda>w. w = Exited) (threads s) \<and>
          joined (trace s) = [0..<n])"
proof -
  from assms(2) have inv: "pool_inv tasks n s" and tinv: "trace_inv s"
    by (rule reachable_invs)+
  have sp: "spawned (trace s) = [0..<length (threads s)]"
    using tinv by (simp add: trace_inv_def)
  have len: "length (threads s) \<le> n" and st: "stops (trace s) \<le> n"
    using inv by (auto simp: pool_inv_def pc_inv_def split: mpc.splits)
  have before: "spawned (trace s) = [0..<n]" if "enqueued (trace s) \<noteq> [] \<or> 0 < stops (trace s)"
    using that inv sp by (auto simp: pool_inv_def pc_inv_def split: mpc.splits)
  have late: "quiet s \<and> enqueued (trace s) = tasks" if "0 < stops (trace s)"
    using that inv by (auto simp: pool_inv_def pc_inv_def split: mpc.splits)
  have barrier: "unfinished_tasks s = stops (trace s) \<and> quiet s \<and> mset (invoked (trace s)) = mset tasks \<and>
          length (acked (trace s)) = length tasks" if "0 < stops (trace s)"
  proof -
    from late[OF that] have q: "quiet s" and e: "enqueued (trace s) = tasks" by simp_all
    from inv q e have m: "mset (invoked (trace s)) = mset tasks"
      by (auto simp: pool_inv_def quiet_def)
    then have "length (invoked (trace s)) = length tasks"
      by (metis size_mset)
    with tinv q have "length (acked (trace s)) = length tasks"
      by (simp add: trace_inv_def quiet_def)
    moreover from inv q have "unfinished_tasks s = stops (trace s)"
      by (simp add: pool_inv_def quiet_def)
    ultimately show ?thesis using q m by simp
  qed
  have ret: "spawned (trace s) = [0..<n] \<and> stops (trace s) = n \<and>
          (\<forall>i<n. count_list (stopped (trace s)) i = 1) \<and> queue s = [] \<and>
          length (threads s) = n \<and> list_all (\<lambda>w. w = Exited) (threads s) \<and>
          joined (trace s) = [0..<n]" if r: "pc s = Returned"
  proof -
    from inv r have l: "length (threads s) = n" and s: "stops (trace s) = n"
      and ex: "list_all (\<lambda>w. w = Exited) (threads s)" and q: "quiet s"
      by (simp_all add: pool_inv_def pc_inv_def)
    from ex have "count_list (threads s) Exited = length (threads s)"
      by (rule count_list_all)
    with inv s l have "count_list (queue s) None = 0" by (simp add: pool_inv_def)
    with q have "queue s = []"
      by (intro no_items) (simp_all add: quiet_def)
    moreover from tinv r l have "joined (trace s) = [0..<n]" by (simp add: trace_inv_def)
    moreover have "\<forall>i<n. count_list (stopped (trace s)) i = 1"
      using tinv l ex by (simp add: trace_inv_def list_all_length)
    ultimately show ?thesis using sp l s ex by simp
  qed
  from sp len st before barrier ret show ?thesis by blast
qed


theorem process_tasks_pool_lifecycle_witness:
  "\<exists>s. (1::nat) \<le> 2 \<and> reachable demo_client [] demo_tasks 2 s \<and> pc s = Returned
       \<and> spawned (trace s) = [0..<2] \<and> stops (trace s) = 2 \<and> queue s = []
       \<and> list_all (\<lambda>w. w = Exited) (threads s) \<and> joined (trace s) = [0..<2]"
proof -
  obtain s where r: "reachable demo_client [] demo_tasks 2 s" and ret: "pc s = Returned"
    using demo_reachable by blast
  have "(1::nat) \<le> 2" by simp
  from process_tasks_pool_lifecycle[OF this r] ret r show ?thesis
    by (intro exI[of _ s]) simp
qed

text \<open>
  C4. For every task whose operation raises an exception: the worker that holds it
  catches the exception, writes the log record, acknowledges the task (\<open>task_done\<close>) and
  is back at \<open>queue.get()\<close>; the log holds one record for every failed invocation; no
  worker is ever ended by an exception; every invocation is acknowledged or is about to
  be; no run of the pool is longer than \<open>4 n + 4 |tasks| + 5\<close> steps and every run can
  be continued until \<open>_process_tasks\<close> returns; and when it has returned, every task has
  been invoked and acknowledged and every worker has ended and has been joined.
\<close>

theorem worker_survives_task_errors:
  assumes "1 \<le> n" and "reachable self tr0 tasks n s"
  shows "logger s = map log_record (failures (trace s))
    \<and> list_all (\<lambda>w. \<not> died w) (threads s)
    \<and> (\<forall>i t e. i < length (threads s) \<and> threads s ! i = Calling t \<and>
                 run_task self (tr0 @ trace s) t = Inl e \<longrightarrow>
          (\<exists>s1 s2. worker self tr0 i s = Some s1 \<and> logger s1 = logger s @ [log_record e] \<and>
             worker self tr0 i s1 = Some s2 \<and> threads s2 ! i = Getting \<and>
             Suc (unfinished_tasks s2) = unfinished_tasks s \<and>
             trace s2 = trace s @ [Invoked i t (Inl e), Acked i]))
    \<and> length (invoked (trace s)) = length (acked (trace s)) + count_list (threads s) Finishing
    \<and> (\<forall>sched. pool_exec self tr0 tasks n sched pool_init = Some s \<longrightarrow>
          length sched \<le> 4 * n + 4 * length tasks + 5)
    \<and> (\<exists>sched s'. pool_exec self tr0 tasks n sched s = Some s' \<and> pc s' = Returned)
    \<and> (pc s = Returned \<longrightarrow>
          mset (invoked (trace s)) = mset tasks \<and> length (acked (trace s)) = length tasks \<and>
          list_all (\<lambda>w. w = Exited) (threads s) \<and> joined (trace s) = [0..<n])"
proof -
  from assms(2) have inv: "pool_inv tasks n s" and tinv: "trace_inv s"
    by (rule reachable_invs)+
  have a: "logger s = map log_record (failures (trace s))"
    using tinv by (simp add: trace_inv_def)
  have b: "list_all (\<lambda>w. \<not> died w) (threads s)"
    using inv by (simp add: pool_inv_def)
  have c: "\<forall>i t e. i < length (threads s) \<and> threads s ! i = Calling t \<and>
                 run_task self (tr0 @ trace s) t = Inl e \<longrightarrow>
          (\<exists>s1 s2. worker self tr0 i s = Some s1 \<and> logger s1 = logger s @ [log_record e] \<and>
             worker self tr0 i s1 = Some s2 \<and> threads s2 ! i = Getting \<and>
             Suc (unfinished_tasks s2) = unfinished_tasks s \<and>
             trace s2 = trace s @ [Invoked i t (Inl e), Acked i])"
    using failing_task_logged_and_acked[OF inv] by blast
  have d: "length (invoked (trace s)) = length (acked (trace s)) + count_list (threads s) Finishing"
    using tinv by (simp add: trace_inv_def)
  have e: "\<forall>sched. pool_exec self tr0 tasks n sched pool_init = Some s \<longrightarrow>
          length sched \<le> 4 * n + 4 * length tasks + 5"
  proof (intro allI impI)
    fix sched assume "pool_exec self tr0 tasks n sched pool_init = Some s"
    from exec_bounded[OF pool_inv_init this] show "length sched \<le> 4 * n + 4 * length tasks + 5"
      by (simp add: steps_left_init)
  qed
  have f: "\<exists>sched s'. pool_exec self tr0 tasks n sched s = Some s' \<and> pc s' = Returned"
    using pool_completes[OF assms(1) inv] .
  have g: "pc s = Returned \<longrightarrow>
          mset (invoked (trace s)) = mset tasks \<and> length (acked (trace s)) = length tasks \<and>
          list_all (\<lambda>w. w = Exited) (threads s) \<and> joined (trace s) = [0..<n]"
  proof
    assume r: "pc s = Returned"
    from inv r have m: "mset (invoked (trace s)) = mset tasks" and q: "quiet s"
      and ex: "list_all (\<lambda>w. w = Exited) (threads s)" and l: "length (threads s) = n"
      by (auto simp: pool_inv_def pc_inv_def quiet_def)
    from m have "length (invoked (trace s)) = length tasks" by (metis size_mset)
    with d q have "length (acked (trace s)) = length tasks" by (simp add: quiet_def)
    moreover from tinv r l have "joined (trace s) = [0..<n]" by (simp add: trace_inv_def)
    ultimately show "mset (invoked (trace s)) = mset tasks \<and> length (acked (trace s)) = length tasks \<and>
          list_all (\<lambda>w. w = Exited) (threads s) \<and> joined (trace s) = [0..<n]"
      using m ex by simp
  qed
  from a b c d e f g show ?thesis by (intro conjI)
qed

theorem worker_survives_task_errors_witness:
  "\<exists>s. (1::nat) \<le> 2 \<and> reachable demo_client [] demo_tasks 2 s \<and> pc s = Returned
       \<and> failures (trace s) = [FileNotFoundError ''Attachment file not found.'']
       \<and> logger s = [''Error processing task: Attachment file not found.'']
       \<and> mset (invoked (trace s)) = mset demo_tasks \<and> length (acked (trace s)) = 2
       \<and> list_all (\<lambda>w. w = Exited) (threads s) \<and> joined (trace s) = [0..<2]"
proof -
  obtain s where run: "pool_exec demo_client [] demo_tasks 2 demo_sched pool_init = Some s"
    and ret: "pc s = Returned"
    and fl: "failures (trace s) = [FileNotFoundError ''Attachment file not found.'']"
    using demo_run_failure by blast
  have r: "reachable demo_client [] demo_tasks 2 s"
    unfolding reachable_def using run by blast
  have "(1::nat) \<le> 2" by simp
  moreover have "length demo_tasks = 2" by (simp add: demo_tasks_def)
  ultimately show ?thesis
    using worker_survives_task_errors[OF _ r] ret fl r
    by (intro exI[of _ s]) (simp add: log_record_def)
qed

section \<open>The claims about the per-claim orchestrator\<close>

text \<open>
  C8. For every bundled claim, \<open>send_a_claim_and_its_children\<close> removes the entries
  \<open>invoices\<close>, \<open>claim_attachments\<close> and \<open>credit_notes\<close> from the bundled record and
  calls \<open>create_claim\<close> first, with exactly the remaining fields as keyword arguments;
  no later call of the orchestration is a call of \<open>create_claim\<close> (it is not retried);
  and if \<open>create_claim\<close> raises, the orchestration ends with that exception, its trace
  holds the call of \<open>create_claim\<close> and nothing else (no sub-resource call), and no run of
  it ever has a worker pool (no task is executed).
\<close>

theorem create_claim_first_and_fail_fast:
  "claim_kwargs bc =
     filter (\<lambda>kv. fst kv \<notin> {''invoices'', ''claim_attachments'', ''credit_notes''}) bc
   \<and> (\<exists>ext. snd (build_tasks self bc) =
          Called (Call ''create_claim'' (claim_kwargs bc)) (create_claim self [] (claim_kwargs bc)) # ext
          \<and> calls_of ''create_claim'' ext = [])
   \<and> (\<forall>e. create_claim self [] (claim_kwargs bc) = Inl e \<longrightarrow>
         send_a_claim_and_its_children self bc =
           Raised e [Called (Call ''create_claim'' (claim_kwargs bc)) (Inl e)]
         \<and> (\<forall>cpu sched r.
               claim_exec self cpu sched (send_a_claim_and_its_children self bc) = Some r \<longrightarrow>
               r = Raised e [Called (Call ''create_claim'' (claim_kwargs bc)) (Inl e)]))"
proof (intro conjI allI impI)
  show "claim_kwargs bc =
     filter (\<lambda>kv. fst kv \<notin> {''invoices'', ''claim_attachments'', ''credit_notes''}) bc"
    by (rule claim_kwargs_filter)
next
  obtain res tr where b: "build_tasks self bc = (res, tr)" by (cases "build_tasks self bc") auto
  from create_claim_once[OF b] b
  show "\<exists>ext. snd (build_tasks self bc) =
          Called (Call ''create_claim'' (claim_kwargs bc)) (create_claim self [] (claim_kwargs bc)) # ext
          \<and> calls_of ''create_claim'' ext = []"
    by (simp add: create_event_def)
next
  fix e assume e: "create_claim self [] (claim_kwargs bc) = Inl e"
  from create_claim_failure[OF e] e
  show r: "send_a_claim_and_its_children self bc =
           Raised e [Called (Call ''create_claim'' (claim_kwargs bc)) (Inl e)]"
    by (simp add: create_event_def)
  fix cpu sched r
  assume "claim_exec self cpu sched (send_a_claim_and_its_children self bc) = Some r"
  with r show "r = Raised e [Called (Call ''create_claim'' (claim_kwargs bc)) (Inl e)]"
    by (simp add: claim_exec_Raised)
qed

theorem create_claim_first_and_fail_fast_witness:
  "claim_kwargs claim_with_two_invoices = flat_claim
   \<and> send_a_claim_and_its_children failing_client claim_with_two_invoices =
       Raised (HTTPError ''500 Server Error'')
         [Called (Call ''create_claim'' flat_claim) (Inl (HTTPError ''500 Server Error''))]"
proof -
  have 1: "claim_kwargs claim_with_two_invoices = flat_claim"
    by (rule failing_create[THEN conjunct2])
  have 2: "create_claim failing_client [] (claim_kwargs claim_with_two_invoices) =
              Inl (HTTPError ''500 Server Error'')"
    by (rule failing_create[THEN conjunct1])
  from create_claim_first_and_fail_fast[of claim_with_two_invoices failing_client] 2
  have "send_a_claim_and_its_children failing_client claim_with_two_invoices =
          Raised (HTTPError ''500 Server Error'')
            [Called (Call ''create_claim'' (claim_kwargs claim_with_two_invoices))
               (Inl (HTTPError ''500 Server Error''))]"
    by blast
  with 1 show ?thesis by simp
qed

text \<open>
  C9. If a creation call (\<open>create_claim\<close>, \<open>submit_invoices\<close> or
  \<open>submit_credit_note\<close>) returns a mapping without the key \<open>id\<close>, that call is the last
  call of the orchestration and \<open>send_a_claim_and_its_children\<close> ends by raising
  \<open>KeyError('id')\<close>, with no worker pool started; a creation call that raises \<open>e\<close> does
  the same with \<open>e\<close>.
\<close>

theorem missing_id_aborts_like_creation_failure:
  assumes "build_tasks self bc = (res, tr)"
  shows "(\<forall>c d. Called c (Inr (PDict d)) \<in> set tr \<and> map_of d ''id'' = None \<longrightarrow>
            last tr = Called c (Inr (PDict d)) \<and> res = Inl (KeyError ''id'') \<and>
            send_a_claim_and_its_children self bc = Raised (KeyError ''id'') tr)
       \<and> (\<forall>c e. Called c (Inl e) \<in> set tr \<longrightarrow>
            last tr = Called c (Inl e) \<and> res = Inl e \<and>
            send_a_claim_and_its_children self bc = Raised e tr)"
proof -
  have 1: "last tr = Called c (Inr (PDict d)) \<and> res = Inl (KeyError ''id'') \<and>
        send_a_claim_and_its_children self bc = Raised (KeyError ''id'') tr"
    if a: "Called c (Inr (PDict d)) \<in> set tr \<and> map_of d ''id'' = None" for c d
  proof -
    from a have m: "Called c (Inr (PDict d)) \<in> set tr" by simp
    from a have "creation_error (Called c (Inr (PDict d))) = Some (KeyError ''id'')" by simp
    from creation_aborts[OF assms m this] show ?thesis .
  qed
  have 2: "last tr = Called c (Inl e) \<and> res = Inl e \<and>
        send_a_claim_and_its_children self bc = Raised e tr"
    if a: "Called c (Inl e) \<in> set tr" for c e
  proof -
    have "creation_error (Called c (Inl e)) = Some e" by simp
    from creation_aborts[OF assms a this] show ?thesis .
  qed
  from 1 2 show ?thesis by blast
qed

theorem missing_id_aborts_like_creation_failure_witness:
  "send_a_claim_and_its_children no_invoice_id_client claim_with_two_invoices =
     Raised (KeyError ''id'')
      [Called (Call ''create_claim'' flat_claim) (Inr (PDict [(''id'', PStr ''CLM-1'')])),
       Called (Call ''submit_invoices''
                [(''claim'', PStr ''CLM-1''), (''invoice_number'', PStr ''INV-1''),
                 (''invoice_date'', PStr ''2024-01-01''), (''lines'', PList [])])
              (Inr (PDict [(''status'', PStr ''created'')]))]"
proof -
  note t = missing_id_aborts_like_creation_failure[OF no_invoice_id_build, THEN conjunct1]
  have "Called (Call ''submit_invoices''
                [(''claim'', PStr ''CLM-1''), (''invoice_number'', PStr ''INV-1''),
                 (''invoice_date'', PStr ''2024-01-01''), (''lines'', PList [])])
              (Inr (PDict [(''status'', PStr ''created'')]))
        \<in> set [Called (Call ''create_claim'' flat_claim) (Inr (PDict [(''id'', PStr ''CLM-1'')])),
       Called (Call ''submit_invoices''
                [(''claim'', PStr ''CLM-1''), (''invoice_number'', PStr ''INV-1''),
                 (''invoice_date'', PStr ''2024-01-01''), (''lines'', PList [])])
              (Inr (PDict [(''status'', PStr ''created'')]))]
        \<and> map_of [(''status'', PStr ''created'')] ''id'' = None"
    by simp
  with t show ?thesis by blast
qed

text \<open>
  C1 (the code at the failing input). A bundled claim whose only invoice carries a
  non-empty \<open>invoice_attachments\<close> list, on a server that answers every request with an
  \<open>id\<close>: \<open>submit_invoices(claim=claim_id, **invoice)\<close> receives the keyword
  \<open>invoice_attachments\<close>, which its signature does not have, and raises TypeError; the
  orchestration ends there, with no attachment-submission task appended and no worker
  pool. The same happens to a credit note that carries \<open>crn_attachments\<close>. The lemma
  \<open>no_nested_attachment_task_is_ever_built\<close> shows that this is so for every input.
\<close>

theorem invoice_attachments_abort_the_claim:
  "send_a_claim_and_its_children demo_client claim_with_invoice_attachment =
     Raised (TypeError ''got an unexpected keyword argument'')
       [Called (Call ''create_claim'' flat_claim) (Inr (PDict [(''id'', PInt 0)])),
        Called (Call ''submit_invoices''
                 [(''claim'', PInt 0), (''invoice_number'', PStr ''INV-2''),
                  (''invoice_date'', PStr ''2024-01-01''), (''lines'', PList []),
                  (''invoice_attachments'', PList [PDict [(''path_to_attachment'', PStr ''rx.pdf'')]])])
               (Inl (TypeError ''got an unexpected keyword argument''))]
   \<and> send_a_claim_and_its_children demo_client claim_with_crn_attachment =
     Raised (TypeError ''got an unexpected keyword argument'')
       [Called (Call ''create_claim'' flat_claim) (Inr (PDict [(''id'', PInt 0)])),
        Called (Call ''submit_credit_note''
                 [(''claim'', PInt 0), (''invoice_number'', PStr ''CRN-1''),
                  (''invoice_date'', PStr ''2024-01-02''), (''lines'', PList []),
                  (''crn_attachments'', PList [PDict [(''path_to_attachment'', PStr ''rx.pdf'')]])])
               (Inl (TypeError ''got an unexpected keyword argument''))]"
  by (simp add: send_a_claim_and_its_children_def build_tasks_def demo_client_def
      claim_with_invoice_attachment_def claim_with_crn_attachment_def
      flat_claim_def invoice_with_attachment_def credit_note_with_attachment_def
      dict_pop_def dict_get_def create_claim_def bind_keywords_def
      create_claim_required_def create_claim_optional_def submit_invoices_def submit_credit_note_def)

text \<open>
  C3. For every bundled claim and every state a run of its orchestration reaches: if the
  event at position \<open>j\<close> of the trace puts an attachment-submission task on the queue,
  hands it to a worker or invokes it, then among the events before position \<open>j\<close> there is
  a call of the creation wrapper of the task's parent (\<open>create_claim\<close> for a claim
  attachment, \<open>submit_invoices\<close> or \<open>submit_credit_note\<close> for \<open>submit_invoice_attachment\<close>)
  that returned a mapping whose \<open>id\<close> is the identifier the task is bound to.
\<close>

theorem attachment_task_after_parent_creation:
  assumes "claim_reachable self cpu bc r"
    and "j < length (claim_trace r)"
    and "task_of (claim_trace r ! j) = Some t"
  shows "bound_to (take j (claim_trace r)) t"
  using assms(1)
proof (cases rule: claim_reachable_cases)
  case (raised e tr)
  from build_trace_calls[OF raised(1)] assms(2) raised(2)
  have "called_name (claim_trace r ! j) \<noteq> None" by (simp add: list_all_length)
  with task_of_called assms(3) show ?thesis by fastforce
next
  case (pooled tasks tr s)
  have calls: "list_all (\<lambda>e. called_name e \<noteq> None) tr"
    by (rule build_trace_calls[OF pooled(1)])
  have ge: "length tr \<le> j"
  proof (rule ccontr)
    assume "\<not> length tr \<le> j"
    then have lt: "j < length tr" by simp
    with pooled(2) have "claim_trace r ! j = tr ! j" by (simp add: nth_append)
    with calls lt have "called_name (claim_trace r ! j) \<noteq> None" by (simp add: list_all_length)
    with task_of_called assms(3) show False by fastforce
  qed
  define k where "k = j - length tr"
  from ge assms(2) pooled(2) have k: "k < length (trace s)" and ev: "claim_trace r ! j = trace s ! k"
    by (simp_all add: k_def nth_append)
  from k have "trace s ! k \<in> set (trace s)" by (rule nth_mem)
  from task_of_member[OF this] assms(3) ev have
    "t \<in> set (enqueued (trace s)) \<or> t \<in> set (dequeued (trace s)) \<or> t \<in> set (invoked (trace s))"
    by simp
  with pool_tasks_given[OF reachable_invs[OF pooled(3)]] have "t \<in> set tasks" by blast
  moreover from build_tasks_post[OF pooled(1)] have "list_all (bound_to tr) tasks"
    unfolding build_post_def by auto
  ultimately have "bound_to tr t" by (simp add: list_all_iff)
  then have "bound_to (tr @ take k (trace s)) t" by (rule bound_to_append)
  moreover have "take j (claim_trace r) = tr @ take k (trace s)"
    using ge pooled(2) by (simp add: k_def)
  ultimately show ?thesis by simp
qed

theorem attachment_task_after_parent_creation_witness:
  "\<exists>r. claim_reachable demo_client (Some 1) claim_with_attachment r
     \<and> claim_trace r ! 3 =
         Dequeued 0 (Some (Task Submit_claim_attachment
                             [PInt 0, PStr ''rx.pdf'', PStr ''PRESCRIPTION'', PNone]))
     \<and> bound_to (take 3 (claim_trace r))
          (Task Submit_claim_attachment [PInt 0, PStr ''rx.pdf'', PStr ''PRESCRIPTION'', PNone])"
proof -
  let ?t = "Task Submit_claim_attachment [PInt 0, PStr ''rx.pdf'', PStr ''PRESCRIPTION'', PNone]"
  obtain r where run: "claim_exec demo_client (Some 1) dispatch_sched
     (send_a_claim_and_its_children demo_client claim_with_attachment) = Some r"
    and tr: "claim_trace r =
      [Called (Call ''create_claim'' flat_claim) (Inr (PDict [(''id'', PInt 0)])),
       Spawned 0, Enqueued (Some ?t), Dequeued 0 (Some ?t)]"
    using dispatch_run by simp
  have re: "claim_reachable demo_client (Some 1) claim_with_attachment r"
    unfolding claim_reachable_def using run by blast
  have 1: "3 < length (claim_trace r)" and 2: "task_of (claim_trace r ! 3) = Some ?t"
    and 3: "claim_trace r ! 3 = Dequeued 0 (Some ?t)"
    using tr by simp_all
  from attachment_task_after_parent_creation[OF re 1 2] re 3 show ?thesis by blast
qed


end
